theory Spec2Isabelle
  imports Main "HOL-Library.Word" "HOL-Library.Monad_Syntax"
begin

section \<open>Geometry: \<^verbatim>\<open>image.Point\<close> and \<^verbatim>\<open>image.Rectangle\<close>\<close>

text \<open>
  The compositor of \<^verbatim>\<open>main.go\<close> is written against Go's \<^verbatim>\<open>image\<close>,
  \<^verbatim>\<open>image/color\<close> and \<^verbatim>\<open>image/draw\<close> packages. Their data types are
  embedded as records, with the fields the compositor reaches. A rectangle holds the points
  with \<open>Min.X \<le> x < Max.X\<close> and \<open>Min.Y \<le> y < Max.Y\<close>; the two corner fields are
  called \<open>MinPt\<close> and \<open>MaxPt\<close> here.
\<close>

record Point =
  X :: int
  Y :: int

record Rectangle =
  MinPt :: Point
  MaxPt :: Point

definition Pt :: "int \<Rightarrow> int \<Rightarrow> Point" where
  "Pt x y = \<lparr>X = x, Y = y\<rparr>"

definition ZP :: Point where
  "ZP = Pt 0 0"

definition ZR :: Rectangle where
  "ZR = \<lparr>MinPt = ZP, MaxPt = ZP\<rparr>"

definition AddPt :: "Point \<Rightarrow> Point \<Rightarrow> Point" where
  "AddPt p q = Pt (X p + X q) (Y p + Y q)"

definition SubPt :: "Point \<Rightarrow> Point \<Rightarrow> Point" where
  "SubPt p q = Pt (X p - X q) (Y p - Y q)"

definition Dx :: "Rectangle \<Rightarrow> int" where
  "Dx r = X (MaxPt r) - X (MinPt r)"

definition Dy :: "Rectangle \<Rightarrow> int" where
  "Dy r = Y (MaxPt r) - Y (MinPt r)"

definition Empty :: "Rectangle \<Rightarrow> bool" where
  "Empty r \<longleftrightarrow> X (MinPt r) \<ge> X (MaxPt r) \<or> Y (MinPt r) \<ge> Y (MaxPt r)"

definition In :: "Point \<Rightarrow> Rectangle \<Rightarrow> bool" where
  "In p r \<longleftrightarrow> X (MinPt r) \<le> X p \<and> X p < X (MaxPt r) \<and> Y (MinPt r) \<le> Y p \<and> Y p < Y (MaxPt r)"

definition AddRect :: "Rectangle \<Rightarrow> Point \<Rightarrow> Rectangle" where
  "AddRect r p = \<lparr>MinPt = AddPt (MinPt r) p, MaxPt = AddPt (MaxPt r) p\<rparr>"

text \<open>
  \<^verbatim>\<open>Rectangle.Intersect\<close>: the larger of the minima and the smaller of the maxima, and
  the zero rectangle when that is empty.
\<close>

definition Intersect :: "Rectangle \<Rightarrow> Rectangle \<Rightarrow> Rectangle" where
  "Intersect r s =
     (let r1 = \<lparr>MinPt = Pt (max (X (MinPt r)) (X (MinPt s))) (max (Y (MinPt r)) (Y (MinPt s))),
                MaxPt = Pt (min (X (MaxPt r)) (X (MaxPt s))) (min (Y (MaxPt r)) (Y (MaxPt s)))\<rparr>
      in if Empty r1 then ZR else r1)"

text \<open>The points of a rectangle, row by row, as the nested loops of a drawing routine visit them.\<close>

definition rect_points :: "Rectangle \<Rightarrow> Point list" where
  "rect_points r =
     concat (map (\<lambda>y. map (\<lambda>x. Pt x y) [X (MinPt r) .. X (MaxPt r) - 1])
                 [Y (MinPt r) .. Y (MaxPt r) - 1])"

section \<open>Colours: \<^verbatim>\<open>color.RGBA\<close> and the source-over arithmetic\<close>

text \<open>
  \<^verbatim>\<open>color.RGBA\<close> has four \<^verbatim>\<open>uint8\<close> channels, alpha-premultiplied. Its method
  \<^verbatim>\<open>RGBA()\<close> widens each channel \<open>c\<close> to the 16-bit value \<open>c * 0x101\<close>. The
  palettes that \<^verbatim>\<open>gif.DecodeAll\<close> builds hold \<^verbatim>\<open>color.RGBA\<close> values, and
  \<^verbatim>\<open>image.Transparent\<close> widens to four zeros like \<^verbatim>\<open>color.RGBA{}\<close>.
\<close>

record color_RGBA =
  R :: "8 word"
  G :: "8 word"
  B :: "8 word"
  A :: "8 word"

definition Transparent_RGBA :: color_RGBA where
  "Transparent_RGBA = \<lparr>R = 0, G = 0, B = 0, A = 0\<rparr>"

definition widen16 :: "8 word \<Rightarrow> nat" where
  "widen16 c = unat c * 257"

text \<open>
  \<^verbatim>\<open>uint32\<close> arithmetic wraps modulo \<open>2 ^ 32\<close>; the conversion to \<^verbatim>\<open>uint8\<close>
  keeps the low byte (\<open>of_nat\<close> into \<open>8 word\<close>). \<open>mMax\<close> is the constant
  \<^verbatim>\<open>m = 1<<16 - 1\<close> of \<^verbatim>\<open>image/draw\<close>.
\<close>

definition u32 :: "nat \<Rightarrow> nat" where
  "u32 n = n mod 2 ^ 32"

definition mMax :: nat where
  "mMax = 65535"

text \<open>
  The pixel arithmetic of \<^verbatim>\<open>image/draw\<close> for an \<^verbatim>\<open>*image.RGBA\<close> destination
  without a mask (\<open>ma = m\<close>). The general routine \<^verbatim>\<open>drawRGBA\<close>, which a paletted
  source reaches, computes for \<^verbatim>\<open>draw.Over\<close>
  \<^verbatim>\<open>a := (m - (sa * ma / m)) * 0x101\<close> and
  \<^verbatim>\<open>d = uint8((d*a + s*ma) / m >> 8)\<close> per channel. A widened channel is at most
  \<open>m\<close>, so the subtraction never goes below zero.
\<close>

definition over_a :: "nat \<Rightarrow> nat" where
  "over_a sa = u32 ((mMax - u32 (sa * mMax) div mMax) * 257)"

definition over_channel :: "nat \<Rightarrow> nat \<Rightarrow> 8 word \<Rightarrow> 8 word" where
  "over_channel a s d = of_nat (u32 (u32 (unat d * a) + u32 (s * mMax)) div mMax div 256)"

definition over_px :: "color_RGBA \<Rightarrow> color_RGBA \<Rightarrow> color_RGBA" where
  "over_px s d =
     (let a = over_a (widen16 (A s))
      in \<lparr>R = over_channel a (widen16 (R s)) (R d),
          G = over_channel a (widen16 (G s)) (G d),
          B = over_channel a (widen16 (B s)) (B d),
          A = over_channel a (widen16 (A s)) (A d)\<rparr>)"

text \<open>
  The fast paths \<^verbatim>\<open>drawCopyOver\<close> (an \<^verbatim>\<open>*image.RGBA\<close> source) and
  \<^verbatim>\<open>drawFillOver\<close> (a uniform source) compute \<^verbatim>\<open>a := (m - sa) * 0x101\<close> and
  \<^verbatim>\<open>d = uint8((d*a/m + s) >> 8)\<close>.
\<close>

definition copy_over_a :: "nat \<Rightarrow> nat" where
  "copy_over_a sa = u32 ((mMax - sa) * 257)"

definition copy_over_channel :: "nat \<Rightarrow> nat \<Rightarrow> 8 word \<Rightarrow> 8 word" where
  "copy_over_channel a s d = of_nat (u32 (u32 (unat d * a) div mMax + s) div 256)"

definition copy_over_px :: "color_RGBA \<Rightarrow> color_RGBA \<Rightarrow> color_RGBA" where
  "copy_over_px s d =
     (let a = copy_over_a (widen16 (A s))
      in \<lparr>R = copy_over_channel a (widen16 (R s)) (R d),
          G = copy_over_channel a (widen16 (G s)) (G d),
          B = copy_over_channel a (widen16 (B s)) (B d),
          A = copy_over_channel a (widen16 (A s)) (A d)\<rparr>)"

text \<open>
  For \<^verbatim>\<open>draw.Src\<close> the destination is overwritten: \<^verbatim>\<open>d = uint8(s * ma / m >> 8)\<close>
  in \<^verbatim>\<open>drawRGBA\<close>, the same value in \<^verbatim>\<open>drawFillSrc\<close> and \<^verbatim>\<open>drawCopySrc\<close>.
\<close>

definition src_channel :: "nat \<Rightarrow> 8 word" where
  "src_channel s = of_nat (u32 (s * mMax) div mMax div 256)"

definition src_px :: "color_RGBA \<Rightarrow> color_RGBA" where
  "src_px s = \<lparr>R = src_channel (widen16 (R s)), G = src_channel (widen16 (G s)),
              B = src_channel (widen16 (B s)), A = src_channel (widen16 (A s))\<rparr>"

datatype Op = Over | Src

section \<open>Images: \<^verbatim>\<open>image.Paletted\<close>, \<^verbatim>\<open>image.RGBA\<close>, \<^verbatim>\<open>image.Uniform\<close>\<close>

text \<open>
  A frame of the animation is an \<^verbatim>\<open>*image.Paletted\<close>: one palette index per pixel in
  \<open>PalPix\<close>, rows \<open>PalStride\<close> apart. \<open>PalettedAt\<close> is the colour whose channels
  \<^verbatim>\<open>drawRGBA\<close> reads with \<^verbatim>\<open>src.At(x, y).RGBA()\<close>; where Go answers with a run-time
  panic (a pixel offset outside the buffer, an index outside the palette, the \<^verbatim>\<open>nil\<close>
  colour of an empty palette) it is \<open>None\<close>.
\<close>

record Paletted =
  PalPix :: "8 word list"
  PalStride :: int
  PalRect :: Rectangle
  Palette :: "color_RGBA list"

definition index :: "'a list \<Rightarrow> int \<Rightarrow> 'a option" where
  "index xs i = (if 0 \<le> i \<and> i < int (length xs) then Some (xs ! nat i) else None)"

definition PalPixOffset :: "Paletted \<Rightarrow> Point \<Rightarrow> int" where
  "PalPixOffset p pt =
     (Y pt - Y (MinPt (PalRect p))) * PalStride p + (X pt - X (MinPt (PalRect p)))"

definition PalettedAt :: "Paletted \<Rightarrow> Point \<Rightarrow> color_RGBA option" where
  "PalettedAt p pt =
     (if Palette p = [] then None
      else if \<not> In pt (PalRect p) then Some (Palette p ! 0)
      else do {
        i \<leftarrow> index (PalPix p) (PalPixOffset p pt);
        index (Palette p) (int (unat i))
      })"

text \<open>
  The canvas is an \<^verbatim>\<open>*image.RGBA\<close>. Every canvas of the compositor comes from
  \<^verbatim>\<open>image.NewRGBA\<close>, so its rows are exactly \<open>Dx\<close> pixels apart; \<open>Pix\<close> holds one
  colour per pixel, row by row, where Go stores the four bytes of that colour.
  \<^verbatim>\<open>NewRGBA\<close> panics on a rectangle with a negative side or with more bytes than an
  \<^verbatim>\<open>int\<close> counts.
\<close>

record image_RGBA =
  Pix :: "color_RGBA list"
  Rect :: Rectangle

definition maxInt :: int where
  "maxInt = 2 ^ 63 - 1"

definition NewRGBA :: "Rectangle \<Rightarrow> image_RGBA option" where
  "NewRGBA r =
     (if Dx r < 0 \<or> Dy r < 0 \<or> 4 * Dx r * Dy r > maxInt then None
      else Some \<lparr>Pix = replicate (nat (Dx r * Dy r)) Transparent_RGBA, Rect = r\<rparr>)"

definition PixOffset :: "Rectangle \<Rightarrow> Point \<Rightarrow> int" where
  "PixOffset r pt = (Y pt - Y (MinPt r)) * Dx r + (X pt - X (MinPt r))"

definition point_of :: "Rectangle \<Rightarrow> nat \<Rightarrow> Point" where
  "point_of r k = Pt (X (MinPt r) + int k mod Dx r) (Y (MinPt r) + int k div Dx r)"

definition RGBAAt :: "image_RGBA \<Rightarrow> Point \<Rightarrow> color_RGBA option" where
  "RGBAAt img pt =
     (if \<not> In pt (Rect img) then Some Transparent_RGBA
      else index (Pix img) (PixOffset (Rect img) pt))"

text \<open>
  What \<^verbatim>\<open>draw.Draw\<close> reads from: a frame, another canvas, or a uniform colour
  (\<^verbatim>\<open>image.Transparent\<close>). Go documents a uniform image as of infinite size; its
  \<^verbatim>\<open>Bounds\<close> method returns the rectangle from \<open>-1e9\<close> to \<open>1e9\<close> in both axes.
\<close>

datatype Image_src =
    PalettedImage Paletted
  | RGBAImage image_RGBA
  | UniformImage color_RGBA

definition UniformBounds :: Rectangle where
  "UniformBounds = \<lparr>MinPt = Pt (- 1000000000) (- 1000000000), MaxPt = Pt 1000000000 1000000000\<rparr>"

definition Transparent :: Image_src where
  "Transparent = UniformImage Transparent_RGBA"

fun Bounds :: "Image_src \<Rightarrow> Rectangle" where
  "Bounds (PalettedImage p) = PalRect p"
| "Bounds (RGBAImage i) = Rect i"
| "Bounds (UniformImage c) = UniformBounds"

fun At :: "Image_src \<Rightarrow> Point \<Rightarrow> color_RGBA option" where
  "At (PalettedImage p) pt = PalettedAt p pt"
| "At (RGBAImage i) pt = RGBAAt i pt"
| "At (UniformImage c) pt = Some c"

text \<open>
  The routine \<^verbatim>\<open>DrawMask\<close> chooses by the type of the source. A uniform source that
  is fully opaque is drawn by \<^verbatim>\<open>drawFillSrc\<close> also under \<^verbatim>\<open>draw.Over\<close>.
\<close>

fun blend :: "Image_src \<Rightarrow> Op \<Rightarrow> color_RGBA \<Rightarrow> color_RGBA \<Rightarrow> color_RGBA" where
  "blend (PalettedImage p) Over s d = over_px s d"
| "blend (RGBAImage i) Over s d = copy_over_px s d"
| "blend (UniformImage c) Over s d = (if widen16 (A s) = mMax then src_px s else copy_over_px s d)"
| "blend src Src s d = src_px s"

section \<open>\<^verbatim>\<open>draw.Draw\<close>\<close>

text \<open>
  \<^verbatim>\<open>draw.Draw(dst, r, src, sp, op)\<close> aligns \<open>r.Min\<close> in \<open>dst\<close> with \<open>sp\<close> in
  \<open>src\<close>, clips \<open>r\<close> to the bounds of \<open>dst\<close> and to the bounds of \<open>src\<close> moved
  by \<open>r.Min - sp\<close>, and replaces every pixel of the clipped rectangle by the blend of
  the source pixel with it. The source pixel for the destination point \<open>p\<close> is at
  \<open>p + (sp - r.Min)\<close>, whatever the clipping did.
\<close>

definition clip :: "image_RGBA \<Rightarrow> Rectangle \<Rightarrow> Image_src \<Rightarrow> Point \<Rightarrow> Rectangle" where
  "clip dst r src sp =
     Intersect (Intersect r (Rect dst)) (AddRect (Bounds src) (SubPt (MinPt r) sp))"

definition Draw :: "image_RGBA \<Rightarrow> Rectangle \<Rightarrow> Image_src \<Rightarrow> Point \<Rightarrow> Op \<Rightarrow> image_RGBA option" where
  "Draw dst r src sp op =
     (let r' = clip dst r src sp;
          delta = SubPt sp (MinPt r)
      in if Empty r' then Some dst
         else if list_all (\<lambda>p. At src (AddPt p delta) \<noteq> None) (rect_points r')
         then Some (dst\<lparr>Pix :=
                map (\<lambda>k. let p = point_of (Rect dst) k
                         in if In p r' then blend src op (the (At src (AddPt p delta))) (Pix dst ! k)
                            else Pix dst ! k)
                    [0 ..< length (Pix dst)]\<rparr>)
         else None)"

section \<open>The compositor of \<^verbatim>\<open>main.go\<close>\<close>

text \<open>
  Of \<^verbatim>\<open>gif.GIF\<close> the compositor reads the frames and the disposal bytes. The record
  leaves open what a frame is: the frame itself in the functional model of this section, a
  pointer to it in the model with a heap further down. The three disposal constants are those
  of the source.
\<close>

record 'f GIF =
  Image :: "'f list"
  Disposal :: "8 word list"

definition disposalNone :: "8 word" where
  "disposalNone = 0x01"

definition disposalBackground :: "8 word" where
  "disposalBackground = 0x02"

definition disposalPrevious :: "8 word" where
  "disposalPrevious = 0x03"

definition drawFrame :: "image_RGBA \<Rightarrow> Paletted \<Rightarrow> Rectangle \<Rightarrow> image_RGBA option" where
  "drawFrame dst src bounds = Draw dst bounds (PalettedImage src) (MinPt bounds) Over"

text \<open>
  The disposal byte the loop switches on at index \<open>i\<close>: \<^verbatim>\<open>uint8(0)\<close>, overwritten by
  \<^verbatim>\<open>gif.Disposal[i]\<close> when \<^verbatim>\<open>i < len(gif.Disposal)\<close>. A negative \<open>i\<close> passes
  that test and the indexing panics; the loop counts \<open>i\<close> up from 0 and never gets there.
\<close>

definition disposal_at :: "'f GIF \<Rightarrow> int \<Rightarrow> 8 word option" where
  "disposal_at g i = (if i < int (length (Disposal g)) then index (Disposal g) i else Some 0)"

text \<open>The body of the loop: the \<^verbatim>\<open>switch\<close> on the disposal byte, in the source's order.\<close>

definition loop_body :: "Paletted GIF \<Rightarrow> Rectangle \<Rightarrow> int \<Rightarrow> image_RGBA \<Rightarrow> image_RGBA option" where
  "loop_body g bounds i img = do {
     disposal \<leftarrow> disposal_at g i;
     if disposal = disposalNone then do {
       f \<leftarrow> index (Image g) i;
       drawFrame img f bounds
     }
     else if disposal = disposalBackground then do {
       img1 \<leftarrow> Draw img bounds Transparent ZP Src;
       f \<leftarrow> index (Image g) i;
       drawFrame img1 f bounds
     }
     else if disposal = disposalPrevious then
       (if i > 0 then do {
          temp \<leftarrow> NewRGBA bounds;
          temp1 \<leftarrow> Draw temp bounds (RGBAImage img) (MinPt bounds) Over;
          f \<leftarrow> index (Image g) i;
          img1 \<leftarrow> drawFrame img f bounds;
          Draw img1 bounds (RGBAImage temp1) (MinPt bounds) Over
        }
        else do {
          f \<leftarrow> index (Image g) i;
          drawFrame img f bounds
        })
     else do {
       f \<leftarrow> index (Image g) i;
       drawFrame img f bounds
     }
   }"

text \<open>\<^verbatim>\<open>for i := 0; i <= frame; i++\<close>, from the current \<open>i\<close> on; a panic ends it.\<close>

function loop :: "Paletted GIF \<Rightarrow> Rectangle \<Rightarrow> int \<Rightarrow> int \<Rightarrow> image_RGBA \<Rightarrow> image_RGBA option" where
  "loop g bounds frame i img =
     (if i \<le> frame then
        (case loop_body g bounds i img of
           None \<Rightarrow> None
         | Some img' \<Rightarrow> loop g bounds frame (i + 1) img')
      else Some img)"
  by pat_completeness auto
termination
  by (relation "measure (\<lambda>(g, bounds, frame, i, img). nat (frame + 1 - i))") auto

declare loop.simps [simp del]

definition gifFrameToImage :: "Paletted GIF \<Rightarrow> int \<Rightarrow> image_RGBA option" where
  "gifFrameToImage g frame = do {
     f \<leftarrow> index (Image g) frame;
     let bounds = PalRect f;
     img \<leftarrow> NewRGBA bounds;
     if frame = 0 then drawFrame img f bounds
     else loop g bounds frame 0 img
   }"

section \<open>Notions the properties are stated with\<close>

text \<open>
  A canvas is well formed when its pixel buffer has one entry per point of its rectangle, as
  every canvas made by \<^verbatim>\<open>image.NewRGBA\<close> has. A frame is well formed when the sides
  of its rectangle are within the 16-bit sizes of the GIF format and every point of the
  rectangle resolves to a palette colour: what \<^verbatim>\<open>gif.DecodeAll\<close> delivers.
\<close>

definition wf_RGBA :: "image_RGBA \<Rightarrow> bool" where
  "wf_RGBA img \<longleftrightarrow> 0 \<le> Dx (Rect img) \<and> 0 \<le> Dy (Rect img) \<and>
     length (Pix img) = nat (Dx (Rect img) * Dy (Rect img))"

definition wf_Paletted :: "Paletted \<Rightarrow> bool" where
  "wf_Paletted f \<longleftrightarrow>
     0 \<le> Dx (PalRect f) \<and> Dx (PalRect f) \<le> 65535 \<and>
     0 \<le> Dy (PalRect f) \<and> Dy (PalRect f) \<le> 65535 \<and>
     list_all (\<lambda>p. PalettedAt f p \<noteq> None) (rect_points (PalRect f))"

text \<open>
  The switch of the loop has three named cases; \<open>effective_disposal\<close> names the case a
  disposal byte lands in, the default case counting as \<open>disposalNone\<close>.
\<close>

definition effective_disposal :: "8 word \<Rightarrow> 8 word" where
  "effective_disposal d =
     (if d = disposalBackground \<or> d = disposalPrevious then d else disposalNone)"

text \<open>
  A frame drawn alone, source-over, onto a freshly allocated, fully transparent canvas of the
  frame's own bounds.
\<close>

definition draw_alone :: "Paletted \<Rightarrow> image_RGBA option" where
  "draw_alone f = do { img \<leftarrow> NewRGBA (PalRect f); drawFrame img f (PalRect f) }"


subsection \<open>Small animations to evaluate on\<close>

text \<open>
  One-pixel frames over the palette red, blue, transparent, as in the scenario of the
  specification; \<open>px_frame k\<close> shows palette entry \<open>k\<close>.
\<close>

definition red :: color_RGBA where
  "red = \<lparr>R = 255, G = 0, B = 0, A = 255\<rparr>"

definition blue :: color_RGBA where
  "blue = \<lparr>R = 0, G = 0, B = 255, A = 255\<rparr>"

definition px_rect :: Rectangle where
  "px_rect = \<lparr>MinPt = Pt 0 0, MaxPt = Pt 1 1\<rparr>"

definition px_frame :: "8 word \<Rightarrow> Paletted" where
  "px_frame k = \<lparr>PalPix = [k], PalStride = 1, PalRect = px_rect,
                 Palette = [red, blue, Transparent_RGBA]\<rparr>"

definition px_canvas :: "color_RGBA \<Rightarrow> image_RGBA" where
  "px_canvas c = \<lparr>Pix = [c], Rect = px_rect\<rparr>"


section \<open>The compositor on a heap\<close>

text \<open>
  In Go the frames are \<^verbatim>\<open>*image.Paletted\<close> and the canvases \<^verbatim>\<open>*image.RGBA\<close>:
  pointers to objects that \<^verbatim>\<open>draw.Draw\<close> updates in place. This second model keeps
  the objects in a heap, a list indexed by address, where allocation appends, so that what a
  call writes to is visible. The animation holds the addresses of its frames. Nothing is
  ever freed; the garbage collector is not modelled.
\<close>

datatype object = PalettedObj Paletted | RGBAObj image_RGBA

type_synonym heap = "object list"

type_synonym addr = nat

text \<open>The source argument of a draw: a pointer, or the global \<^verbatim>\<open>image.Transparent\<close>.\<close>

datatype Image_ref = Ref addr | TransparentRef

definition deref_RGBA :: "heap \<Rightarrow> addr \<Rightarrow> image_RGBA option" where
  "deref_RGBA h a =
     (if a < length h then (case h ! a of RGBAObj i \<Rightarrow> Some i | PalettedObj p \<Rightarrow> None) else None)"

definition deref_Paletted :: "heap \<Rightarrow> addr \<Rightarrow> Paletted option" where
  "deref_Paletted h a =
     (if a < length h then (case h ! a of PalettedObj p \<Rightarrow> Some p | RGBAObj i \<Rightarrow> None) else None)"

definition resolve :: "heap \<Rightarrow> Image_ref \<Rightarrow> Image_src option" where
  "resolve h s =
     (case s of
        TransparentRef \<Rightarrow> Some Transparent
      | Ref a \<Rightarrow>
          (if a < length h
           then Some (case h ! a of PalettedObj p \<Rightarrow> PalettedImage p | RGBAObj i \<Rightarrow> RGBAImage i)
           else None))"

definition NewRGBA_h :: "Rectangle \<Rightarrow> heap \<Rightarrow> (addr \<times> heap) option" where
  "NewRGBA_h r h = do { img \<leftarrow> NewRGBA r; Some (length h, h @ [RGBAObj img]) }"

definition Draw_h :: "addr \<Rightarrow> Rectangle \<Rightarrow> Image_ref \<Rightarrow> Point \<Rightarrow> Op \<Rightarrow> heap \<Rightarrow> heap option" where
  "Draw_h dst r src sp op h = do {
     d \<leftarrow> deref_RGBA h dst;
     s \<leftarrow> resolve h src;
     d' \<leftarrow> Draw d r s sp op;
     Some (h[dst := RGBAObj d'])
   }"

definition drawFrame_h :: "addr \<Rightarrow> addr \<Rightarrow> Rectangle \<Rightarrow> heap \<Rightarrow> heap option" where
  "drawFrame_h dst src bounds h = do {
     _ \<leftarrow> deref_Paletted h src;
     Draw_h dst bounds (Ref src) (MinPt bounds) Over h
   }"

definition loop_body_h :: "addr GIF \<Rightarrow> Rectangle \<Rightarrow> int \<Rightarrow> addr \<Rightarrow> heap \<Rightarrow> heap option" where
  "loop_body_h g bounds i img h = do {
     disposal \<leftarrow> disposal_at g i;
     if disposal = disposalNone then do {
       f \<leftarrow> index (Image g) i;
       drawFrame_h img f bounds h
     }
     else if disposal = disposalBackground then do {
       h1 \<leftarrow> Draw_h img bounds TransparentRef ZP Src h;
       f \<leftarrow> index (Image g) i;
       drawFrame_h img f bounds h1
     }
     else if disposal = disposalPrevious then
       (if i > 0 then do {
          (temp, h1) \<leftarrow> NewRGBA_h bounds h;
          h2 \<leftarrow> Draw_h temp bounds (Ref img) (MinPt bounds) Over h1;
          f \<leftarrow> index (Image g) i;
          h3 \<leftarrow> drawFrame_h img f bounds h2;
          Draw_h img bounds (Ref temp) (MinPt bounds) Over h3
        }
        else do {
          f \<leftarrow> index (Image g) i;
          drawFrame_h img f bounds h
        })
     else do {
       f \<leftarrow> index (Image g) i;
       drawFrame_h img f bounds h
     }
   }"

function loop_h :: "addr GIF \<Rightarrow> Rectangle \<Rightarrow> int \<Rightarrow> int \<Rightarrow> addr \<Rightarrow> heap \<Rightarrow> heap option" where
  "loop_h g bounds frame i img h =
     (if i \<le> frame then
        (case loop_body_h g bounds i img h of
           None \<Rightarrow> None
         | Some h' \<Rightarrow> loop_h g bounds frame (i + 1) img h')
      else Some h)"
  by pat_completeness auto
termination
  by (relation "measure (\<lambda>(g, bounds, frame, i, img, h). nat (frame + 1 - i))") auto

declare loop_h.simps [simp del]

text \<open>The call returns the pointer to the canvas it allocated, and leaves a new heap.\<close>

definition gifFrameToImage_h :: "addr GIF \<Rightarrow> int \<Rightarrow> heap \<Rightarrow> (addr \<times> heap) option" where
  "gifFrameToImage_h g frame h = do {
     fr \<leftarrow> index (Image g) frame;
     f \<leftarrow> deref_Paletted h fr;
     let bounds = PalRect f;
     (img, h1) \<leftarrow> NewRGBA_h bounds h;
     if frame = 0 then do {
       h2 \<leftarrow> drawFrame_h img fr bounds h1;
       Some (img, h2)
     }
     else do {
       h2 \<leftarrow> loop_h g bounds frame 0 img h1;
       Some (img, h2)
     }
   }"

text \<open>
  A heap holds an animation when every frame pointer addresses the paletted object that is
  the frame, and the disposal bytes are the same.
\<close>

definition holds :: "heap \<Rightarrow> addr GIF \<Rightarrow> Paletted GIF \<Rightarrow> bool" where
  "holds h gr g \<longleftrightarrow>
     Disposal gr = Disposal g \<and>
     list_all2 (\<lambda>a f. a < length h \<and> h ! a = PalettedObj f) (Image gr) (Image g)"


section \<open>Properties\<close>

subsection \<open>Rectangles and pixel offsets\<close>

lemma In_rect_points: "p \<in> set (rect_points r) \<longleftrightarrow> In p r"
  by (cases p) (force simp: rect_points_def In_def Pt_def)

lemma Empty_iff: "Empty r \<longleftrightarrow> (\<forall>p. \<not> In p r)"
proof
  assume "Empty r" then show "\<forall>p. \<not> In p r" by (auto simp: Empty_def In_def)
next
  assume a: "\<forall>p. \<not> In p r"
  then have "\<not> In (MinPt r) r" by blast
  then show "Empty r" by (auto simp: Empty_def In_def)
qed

lemma In_ZR [simp]: "\<not> In p ZR"
  by (simp add: In_def ZR_def ZP_def Pt_def)

lemma In_Intersect: "In p (Intersect r s) \<longleftrightarrow> In p r \<and> In p s"
  by (auto simp: Intersect_def Let_def In_def Empty_def Pt_def ZR_def ZP_def)

lemma In_AddRect: "In p (AddRect r q) \<longleftrightarrow> In (SubPt p q) r"
  by (auto simp: AddRect_def In_def AddPt_def SubPt_def Pt_def)

lemma SubPt_self [simp]: "SubPt p p = ZP"
  by (simp add: SubPt_def ZP_def)

lemma AddPt_ZP [simp]: "AddPt p ZP = p"
  by (simp add: AddPt_def ZP_def Pt_def)

lemma SubPt_ZP [simp]: "SubPt p ZP = p"
  by (simp add: SubPt_def ZP_def Pt_def)

lemma int_div_less_rows:
  assumes "0 < (w::int)" "k < w * h"
  shows "k div w < h"
proof (rule ccontr)
  assume "\<not> k div w < h"
  then have "w * h \<le> w * (k div w)" using assms(1) by (intro mult_left_mono) auto
  moreover have "w * (k div w) + k mod w = k" by simp
  moreover have "0 \<le> k mod w" using assms(1) by simp
  ultimately show False using assms(2) by linarith
qed

lemma point_of_In:
  assumes "0 \<le> Dx r" "0 \<le> Dy r" "k < nat (Dx r * Dy r)"
  shows "In (point_of r k) r" and "PixOffset r (point_of r k) = int k"
proof -
  have w: "0 < Dx r" using assms by (cases "Dx r = 0") auto
  have k: "int k < Dx r * Dy r" using assms by linarith
  have m: "0 \<le> int k mod Dx r" "int k mod Dx r < Dx r" using w by simp_all
  have d: "0 \<le> int k div Dx r" using w by (simp add: pos_imp_zdiv_nonneg_iff)
  have "int k div Dx r < Dy r"
    by (rule int_div_less_rows [OF w k])
  with m d show "In (point_of r k) r"
    by (simp add: In_def point_of_def Pt_def Dx_def Dy_def)
  show "PixOffset r (point_of r k) = int k"
    by (simp add: PixOffset_def point_of_def Pt_def)
qed

lemma PixOffset_In:
  assumes "In p r"
  shows "0 \<le> PixOffset r p" and "PixOffset r p < Dx r * Dy r"
    and "point_of r (nat (PixOffset r p)) = p"
proof -
  define x where "x = X p - X (MinPt r)"
  define y where "y = Y p - Y (MinPt r)"
  have x: "0 \<le> x" "x < Dx r" and y: "0 \<le> y" "y < Dy r"
    using assms by (auto simp: In_def x_def y_def Dx_def Dy_def)
  have off: "PixOffset r p = y * Dx r + x" by (simp add: PixOffset_def x_def y_def)
  show nonneg: "0 \<le> PixOffset r p" using x y off by simp
  have "y * Dx r + x < (y + 1) * Dx r" using x by (simp add: algebra_simps)
  also have "\<dots> \<le> Dy r * Dx r" using y x by (intro mult_right_mono) auto
  finally show "PixOffset r p < Dx r * Dy r" by (simp add: off mult.commute)
  have "(y * Dx r + x) mod Dx r = x" "(y * Dx r + x) div Dx r = y" using x by auto
  then show "point_of r (nat (PixOffset r p)) = p"
    using nonneg by (cases p) (simp add: point_of_def off [symmetric] Pt_def, simp add: off x_def y_def)
qed

subsection \<open>The blend of one pixel\<close>

lemma unat8_bound: "unat (c :: 8 word) < 256"
  using unsigned_less [of c, where 'a = nat] by simp

lemma widen_back: "n < 256 \<Longrightarrow> u32 (n * 257 * mMax) div mMax div 256 = n"
proof -
  assume n: "n < 256"
  have "n * 257 * 65535 < 2 ^ 32" using n by simp
  then have "u32 (n * 257 * mMax) = n * 257 * 65535" by (simp add: u32_def mMax_def)
  moreover have "n * 257 * 65535 div 65535 = n * 257" by simp
  moreover have "n * 257 div 256 = n" using n by simp
  ultimately show ?thesis by (simp add: mMax_def)
qed

lemma u32_idem [simp]: "u32 (u32 n) = u32 n"
  by (simp add: u32_def)

lemma u32_zero [simp]: "u32 0 = 0"
  by (simp add: u32_def)

lemma src_channel_widen [simp]: "src_channel (widen16 c) = c"
  using widen_back [OF unat8_bound [of c]] by (simp add: src_channel_def widen16_def)

lemma over_a_opaque: "over_a (widen16 255) = 0"
  by (simp add: over_a_def widen16_def u32_def mMax_def)

lemma over_a_clear: "over_a (widen16 0) = 16842495"
  by (simp add: over_a_def widen16_def u32_def mMax_def)

lemma over_channel_opaque [simp]: "over_channel 0 (widen16 c) d = c"
  using widen_back [OF unat8_bound [of c]]
  by (simp add: over_channel_def widen16_def)

lemma over_channel_onto_clear [simp]: "over_channel a (widen16 c) 0 = c"
  using widen_back [OF unat8_bound [of c]]
  by (simp add: over_channel_def widen16_def)

lemma over_channel_clear_src [simp]: "over_channel 16842495 (widen16 0) d = d"
proof -
  have "unat d * 257 * 65535 = unat d * 16842495" by simp
  then have e: "u32 (unat d * 16842495) = u32 (unat d * 257 * mMax)"
    unfolding mMax_def by (rule arg_cong [where f = u32, symmetric])
  show ?thesis
    using widen_back [OF unat8_bound [of d]]
    by (simp add: over_channel_def widen16_def e)
qed

lemma copy_over_a_opaque: "copy_over_a (widen16 255) = 0"
  by (simp add: copy_over_a_def widen16_def u32_def mMax_def)

lemma copy_over_a_clear: "copy_over_a (widen16 0) = 16842495"
  by (simp add: copy_over_a_def widen16_def u32_def mMax_def)

lemma widen_div: "u32 (unat (c :: 8 word) * 257) div 256 = unat c"
proof -
  have "unat c * 257 < 2 ^ 32" using unat8_bound [of c] by simp
  then have "u32 (unat c * 257) = unat c * 257" by (simp add: u32_def)
  then show ?thesis using unat8_bound [of c] by simp
qed

lemma copy_over_channel_opaque [simp]: "copy_over_channel 0 (widen16 c) d = c"
  using widen_div [of c] by (simp add: copy_over_channel_def widen16_def)

lemma copy_over_channel_onto_clear [simp]: "copy_over_channel a (widen16 c) 0 = c"
  using widen_div [of c] by (simp add: copy_over_channel_def widen16_def)

lemma copy_over_channel_clear_src [simp]: "copy_over_channel 16842495 (widen16 0) d = d"
proof -
  have "unat d * 16842495 < 2 ^ 32" using unat8_bound [of d] by simp
  then have "u32 (unat d * 16842495) = unat d * 257 * 65535" by (simp add: u32_def)
  then have "u32 (unat d * 16842495) div mMax = unat d * 257" by (simp add: mMax_def)
  then show ?thesis using widen_div [of d] by (simp add: copy_over_channel_def widen16_def)
qed

lemma src_px_id [simp]: "src_px s = s"
  by (simp add: src_px_def)

lemma over_px_opaque: "A s = 255 \<Longrightarrow> over_px s d = s"
  by (simp add: over_px_def over_a_opaque)

lemma over_px_onto_clear [simp]: "over_px s Transparent_RGBA = s"
  by (simp add: over_px_def Transparent_RGBA_def)

lemma over_px_clear_src [simp]: "over_px Transparent_RGBA d = d"
  by (simp add: over_px_def Transparent_RGBA_def over_a_clear)

lemma copy_over_px_opaque: "A s = 255 \<Longrightarrow> copy_over_px s d = s"
  by (simp add: copy_over_px_def copy_over_a_opaque)

lemma copy_over_px_onto_clear [simp]: "copy_over_px s Transparent_RGBA = s"
  by (simp add: copy_over_px_def Transparent_RGBA_def)

lemma copy_over_px_clear_src [simp]: "copy_over_px Transparent_RGBA d = d"
  by (simp add: copy_over_px_def Transparent_RGBA_def copy_over_a_clear)

subsection \<open>What a draw does to each pixel\<close>

lemma In_clip:
  "In p (clip dst r src sp) \<longleftrightarrow>
     In p r \<and> In p (Rect dst) \<and> In (SubPt p (SubPt (MinPt r) sp)) (Bounds src)"
  by (simp add: clip_def In_Intersect In_AddRect)

lemma Draw_unfold:
  "Draw dst r src sp op =
     (if \<forall>p. In p (clip dst r src sp) \<longrightarrow> At src (AddPt p (SubPt sp (MinPt r))) \<noteq> None
      then Some (dst\<lparr>Pix :=
             map (\<lambda>k. if In (point_of (Rect dst) k) (clip dst r src sp)
                      then blend src op (the (At src (AddPt (point_of (Rect dst) k) (SubPt sp (MinPt r)))))
                             (Pix dst ! k)
                      else Pix dst ! k)
                 [0 ..< length (Pix dst)]\<rparr>)
      else None)"
proof (cases "Empty (clip dst r src sp)")
  case True
  then have no: "\<And>p. \<not> In p (clip dst r src sp)" by (simp add: Empty_iff)
  have "map (\<lambda>k. Pix dst ! k) [0 ..< length (Pix dst)] = Pix dst" by (rule map_nth)
  with True no show ?thesis by (simp add: Draw_def Let_def)
next
  case False
  then show ?thesis
    by (simp add: Draw_def Let_def list_all_iff In_rect_points)
qed

lemma Draw_Rect:
  "Draw dst r src sp op = Some dst' \<Longrightarrow> Rect dst' = Rect dst \<and> length (Pix dst') = length (Pix dst)"
  by (auto simp: Draw_unfold split: if_splits)

lemma Draw_wf:
  "wf_RGBA dst \<Longrightarrow> Draw dst r src sp op = Some dst' \<Longrightarrow> wf_RGBA dst'"
  using Draw_Rect [of dst r src sp op dst'] by (simp add: wf_RGBA_def)

lemma RGBAAt_wf:
  assumes "wf_RGBA img" "In p (Rect img)"
  shows "RGBAAt img p = Some (Pix img ! nat (PixOffset (Rect img) p))"
    and "nat (PixOffset (Rect img) p) < length (Pix img)"
proof -
  have a: "0 \<le> PixOffset (Rect img) p" "PixOffset (Rect img) p < Dx (Rect img) * Dy (Rect img)"
    using PixOffset_In [OF assms(2)] by simp_all
  then have "PixOffset (Rect img) p < int (length (Pix img))"
    using assms(1) by (simp add: wf_RGBA_def)
  then show "RGBAAt img p = Some (Pix img ! nat (PixOffset (Rect img) p))"
    using a assms(2) by (simp add: RGBAAt_def index_def)
  show "nat (PixOffset (Rect img) p) < length (Pix img)"
    using a assms(1) by (simp add: wf_RGBA_def)
qed

lemma RGBAAt_outside: "\<not> In p (Rect img) \<Longrightarrow> RGBAAt img p = Some Transparent_RGBA"
  by (simp add: RGBAAt_def)

lemma RGBAAt_total: "wf_RGBA img \<Longrightarrow> RGBAAt img p \<noteq> None"
  by (cases "In p (Rect img)") (simp_all add: RGBAAt_wf RGBAAt_outside)

lemma RGBAAt_point_of:
  assumes "wf_RGBA img" "k < length (Pix img)"
  shows "RGBAAt img (point_of (Rect img) k) = Some (Pix img ! k)"
proof -
  have k: "k < nat (Dx (Rect img) * Dy (Rect img))" using assms by (simp add: wf_RGBA_def)
  have w: "0 \<le> Dx (Rect img)" "0 \<le> Dy (Rect img)" using assms by (simp_all add: wf_RGBA_def)
  show ?thesis
    using point_of_In [OF w k] assms(1) by (simp add: RGBAAt_wf)
qed

lemma RGBA_ext:
  assumes "wf_RGBA a" "wf_RGBA b" "Rect a = Rect b"
    and eq: "\<And>p. In p (Rect a) \<Longrightarrow> RGBAAt a p = RGBAAt b p"
  shows "a = b"
proof -
  have len: "length (Pix a) = length (Pix b)" using assms(1-3) by (simp add: wf_RGBA_def)
  have "Pix a = Pix b"
  proof (rule nth_equalityI [OF len])
    fix k assume k: "k < length (Pix a)"
    have w: "0 \<le> Dx (Rect a)" "0 \<le> Dy (Rect a)" "k < nat (Dx (Rect a) * Dy (Rect a))"
      using assms(1) k by (simp_all add: wf_RGBA_def)
    have "RGBAAt a (point_of (Rect a) k) = RGBAAt b (point_of (Rect a) k)"
      by (rule eq) (rule point_of_In [OF w])
    then show "Pix a ! k = Pix b ! k"
      using RGBAAt_point_of [OF assms(1) k] RGBAAt_point_of [OF assms(2), of k] k len assms(3)
      by simp
  qed
  then show ?thesis using assms(3) by simp
qed

lemma RGBAAt_Draw:
  assumes wf: "wf_RGBA dst" and d: "Draw dst r src sp op = Some dst'"
  shows "RGBAAt dst' p =
           (if In p (clip dst r src sp)
            then Some (blend src op (the (At src (AddPt p (SubPt sp (MinPt r))))) (the (RGBAAt dst p)))
            else RGBAAt dst p)"
proof (cases "In p (Rect dst)")
  case False
  then have "\<not> In p (clip dst r src sp)" by (simp add: In_clip)
  with False Draw_Rect [OF d] show ?thesis by (simp add: RGBAAt_outside)
next
  case True
  have wf': "wf_RGBA dst'" by (rule Draw_wf [OF wf d])
  have R: "Rect dst' = Rect dst" using Draw_Rect [OF d] by simp
  let ?k = "nat (PixOffset (Rect dst) p)"
  have k: "?k < length (Pix dst)" by (rule RGBAAt_wf(2) [OF wf True])
  have pk: "point_of (Rect dst) ?k = p" by (rule PixOffset_In(3) [OF True])
  have "RGBAAt dst' p = Some (Pix dst' ! ?k)" using RGBAAt_wf(1) [OF wf'] True R by simp
  moreover have "RGBAAt dst p = Some (Pix dst ! ?k)" by (rule RGBAAt_wf(1) [OF wf True])
  moreover have "Pix dst' ! ?k =
      (if In p (clip dst r src sp)
       then blend src op (the (At src (AddPt p (SubPt sp (MinPt r))))) (Pix dst ! ?k)
       else Pix dst ! ?k)"
    using d k pk by (auto simp: Draw_unfold split: if_splits)
  ultimately show ?thesis by simp
qed

lemma Draw_succeeds:
  "(\<And>p. In p (clip dst r src sp) \<Longrightarrow> At src (AddPt p (SubPt sp (MinPt r))) \<noteq> None)
   \<Longrightarrow> \<exists>dst'. Draw dst r src sp op = Some dst'"
  by (simp add: Draw_unfold)

lemma NewRGBA_props:
  assumes "NewRGBA r = Some img"
  shows "wf_RGBA img" and "Rect img = r" and "RGBAAt img p = Some Transparent_RGBA"
    and "Pix img = replicate (nat (Dx r * Dy r)) Transparent_RGBA"
proof -
  from assms have img: "img = \<lparr>Pix = replicate (nat (Dx r * Dy r)) Transparent_RGBA, Rect = r\<rparr>"
    and w: "0 \<le> Dx r" "0 \<le> Dy r"
    by (auto simp: NewRGBA_def split: if_splits)
  show wf: "wf_RGBA img" using img w by (simp add: wf_RGBA_def)
  show R: "Rect img = r" using img by simp
  show P: "Pix img = replicate (nat (Dx r * Dy r)) Transparent_RGBA" using img by simp
  show "RGBAAt img p = Some Transparent_RGBA"
  proof (cases "In p (Rect img)")
    case True
    from RGBAAt_wf [OF wf True] show ?thesis by (simp add: P)
  next
    case False then show ?thesis by (rule RGBAAt_outside)
  qed
qed

subsection \<open>The draws of the compositor\<close>

lemma wf_Paletted_At: "wf_Paletted f \<Longrightarrow> In p (PalRect f) \<Longrightarrow> PalettedAt f p \<noteq> None"
  by (simp add: wf_Paletted_def list_all_iff In_rect_points)

lemma wf_Paletted_NewRGBA:
  assumes "wf_Paletted f"
  shows "\<exists>img. NewRGBA (PalRect f) = Some img"
proof -
  have b: "0 \<le> Dx (PalRect f)" "Dx (PalRect f) \<le> 65535" "0 \<le> Dy (PalRect f)"
    "Dy (PalRect f) \<le> 65535"
    using assms by (simp_all add: wf_Paletted_def)
  have "Dx (PalRect f) * Dy (PalRect f) \<le> 65535 * 65535" by (intro mult_mono b) simp
  then have "4 * Dx (PalRect f) * Dy (PalRect f) \<le> maxInt" by (simp add: maxInt_def)
  with b show ?thesis by (simp add: NewRGBA_def)
qed


lemma In_UniformBounds:
  assumes "In p bounds" "Dx bounds \<le> 1000000000" "Dy bounds \<le> 1000000000"
  shows "In (SubPt p (SubPt (MinPt bounds) ZP)) UniformBounds"
  using assms by (simp add: In_def UniformBounds_def SubPt_def Dx_def Dy_def ZP_def Pt_def)

lemma In_clip_Uniform:
  assumes "Rect img = bounds" "Dx bounds \<le> 1000000000" "Dy bounds \<le> 1000000000"
  shows "In p (clip img bounds (UniformImage c) ZP) \<longleftrightarrow> In p bounds"
  using assms In_UniformBounds [of p bounds] by (auto simp: In_clip simp del: SubPt_ZP)

lemma drawFrame_succeeds:
  assumes "wf_Paletted f"
  shows "\<exists>img'. drawFrame img f bounds = Some img'"
  unfolding drawFrame_def
proof (rule Draw_succeeds)
  fix p assume "In p (clip img bounds (PalettedImage f) (MinPt bounds))"
  then have "In p (PalRect f)" by (simp add: In_clip)
  then show "At (PalettedImage f) (AddPt p (SubPt (MinPt bounds) (MinPt bounds))) \<noteq> None"
    using assms by (simp add: wf_Paletted_At)
qed

lemma drawFrame_wf:
  "wf_RGBA img \<Longrightarrow> drawFrame img f bounds = Some img' \<Longrightarrow> wf_RGBA img' \<and> Rect img' = Rect img"
  unfolding drawFrame_def using Draw_wf Draw_Rect by blast

lemma RGBAAt_drawFrame:
  assumes "wf_RGBA img" "Rect img = bounds" "drawFrame img f bounds = Some img'"
  shows "RGBAAt img' p =
           (if In p bounds \<and> In p (PalRect f)
            then Some (over_px (the (PalettedAt f p)) (the (RGBAAt img p)))
            else RGBAAt img p)"
  using RGBAAt_Draw [OF assms(1) assms(3) [unfolded drawFrame_def], of p] assms(2)
  by (simp add: In_clip)

lemma clear_succeeds: "\<exists>d. Draw img bounds Transparent ZP Src = Some d"
  using Draw_succeeds [of img bounds Transparent ZP Src] by (auto simp: Transparent_def)

lemma clear_canvas:
  assumes wf: "wf_RGBA img" and rect: "Rect img = bounds"
    and sides: "Dx bounds \<le> 1000000000" "Dy bounds \<le> 1000000000"
  shows "Draw img bounds Transparent ZP Src =
           Some (img\<lparr>Pix := replicate (length (Pix img)) Transparent_RGBA\<rparr>)"
proof -
  let ?c = "img\<lparr>Pix := replicate (length (Pix img)) Transparent_RGBA\<rparr>"
  obtain d where d: "Draw img bounds Transparent ZP Src = Some d"
    using clear_succeeds by blast
  have wfd: "wf_RGBA d" by (rule Draw_wf [OF wf d])
  have Rd: "Rect d = Rect img" using Draw_Rect [OF d] by simp
  have wfc: "wf_RGBA ?c" using wf by (simp add: wf_RGBA_def)
  have "d = ?c"
  proof (rule RGBA_ext [OF wfd wfc])
    show "Rect d = Rect ?c" using Rd by simp
  next
    fix p assume "In p (Rect d)"
    then have p: "In p bounds" using Rd rect by simp
    then have "RGBAAt d p = Some Transparent_RGBA"
      using RGBAAt_Draw [OF wf d, of p] In_clip_Uniform [OF rect sides, of p Transparent_RGBA]
      by (simp add: Transparent_def)
    moreover have "RGBAAt ?c p = Some Transparent_RGBA"
      using RGBAAt_wf [OF wfc, of p] p rect by simp
    ultimately show "RGBAAt d p = RGBAAt ?c p" by simp
  qed
  with d show ?thesis by simp
qed



lemma snapshot_copy:
  assumes wf: "wf_RGBA img" and R: "Rect img = bounds" and n: "NewRGBA bounds = Some temp"
  shows "Draw temp bounds (RGBAImage img) (MinPt bounds) Over = Some img"
proof -
  have wft: "wf_RGBA temp" and Rt: "Rect temp = bounds" using NewRGBA_props [OF n] by simp_all
  obtain d where d: "Draw temp bounds (RGBAImage img) (MinPt bounds) Over = Some d"
    using Draw_succeeds [of temp bounds "RGBAImage img" "MinPt bounds" Over] RGBAAt_total [OF wf]
    by auto
  have wfd: "wf_RGBA d" by (rule Draw_wf [OF wft d])
  have Rd: "Rect d = bounds" using Draw_Rect [OF d] Rt by simp
  have "d = img"
  proof (rule RGBA_ext [OF wfd wf])
    show "Rect d = Rect img" using Rd R by simp
  next
    fix p assume "In p (Rect d)"
    then have p: "In p bounds" using Rd by simp
    obtain c where c: "RGBAAt img p = Some c" using RGBAAt_total [OF wf, of p] by auto
    show "RGBAAt d p = RGBAAt img p"
      using RGBAAt_Draw [OF wft d, of p] p R Rt c NewRGBA_props(3) [OF n, of p]
      by (simp add: In_clip)
  qed
  with d show ?thesis by simp
qed

lemma restore_succeeds:
  assumes "wf_RGBA temp"
  shows "\<exists>d. Draw img1 bounds (RGBAImage temp) (MinPt bounds) Over = Some d"
  using Draw_succeeds [of img1 bounds "RGBAImage temp" "MinPt bounds" Over] RGBAAt_total [OF assms]
  by auto

lemma RGBAAt_restore:
  assumes "wf_RGBA img1" "Rect img1 = bounds" "Rect temp = bounds"
    and "Draw img1 bounds (RGBAImage temp) (MinPt bounds) Over = Some d"
  shows "RGBAAt d p =
           (if In p bounds then Some (copy_over_px (the (RGBAAt temp p)) (the (RGBAAt img1 p)))
            else RGBAAt img1 p)"
  using RGBAAt_Draw [OF assms(1) assms(4), of p] assms(2,3) by (simp add: In_clip)

subsection \<open>The loop body and the loop\<close>

lemma disposal_consts_distinct:
  "disposalNone \<noteq> disposalBackground" "disposalNone \<noteq> disposalPrevious"
  "disposalBackground \<noteq> disposalPrevious"
  "disposalBackground \<noteq> disposalNone" "disposalPrevious \<noteq> disposalNone"
  "disposalPrevious \<noteq> disposalBackground"
  by (simp_all add: disposalNone_def disposalBackground_def disposalPrevious_def)

lemma disposal_at_nonneg: "0 \<le> i \<Longrightarrow> \<exists>d. disposal_at g i = Some d"
  by (simp add: disposal_at_def index_def)

lemma disposal_at_index: "index xs i = Some x \<Longrightarrow> \<exists>d. disposal_at g i = Some d"
  by (rule disposal_at_nonneg) (simp add: index_def split: if_splits)

lemma loop_body_panic: "disposal_at g i = None \<Longrightarrow> loop_body g bounds i img = None"
  by (simp add: loop_body_def)

lemma loop_body_plain:
  "disposal_at g i = Some d \<Longrightarrow> d \<noteq> disposalBackground \<Longrightarrow> d \<noteq> disposalPrevious \<Longrightarrow>
   loop_body g bounds i img = index (Image g) i \<bind> (\<lambda>f. drawFrame img f bounds)"
  by (simp add: loop_body_def)

lemma loop_body_Background:
  "disposal_at g i = Some disposalBackground \<Longrightarrow>
   loop_body g bounds i img =
     Draw img bounds Transparent ZP Src \<bind>
       (\<lambda>img1. index (Image g) i \<bind> (\<lambda>f. drawFrame img1 f bounds))"
  by (simp add: loop_body_def disposal_consts_distinct)

lemma loop_body_Previous:
  "disposal_at g i = Some disposalPrevious \<Longrightarrow>
   loop_body g bounds i img =
     (if i > 0 then
        NewRGBA bounds \<bind> (\<lambda>temp.
        Draw temp bounds (RGBAImage img) (MinPt bounds) Over \<bind> (\<lambda>temp1.
        index (Image g) i \<bind> (\<lambda>f.
        drawFrame img f bounds \<bind> (\<lambda>img1.
        Draw img1 bounds (RGBAImage temp1) (MinPt bounds) Over))))
      else index (Image g) i \<bind> (\<lambda>f. drawFrame img f bounds))"
  by (simp add: loop_body_def disposal_consts_distinct)

lemma loop_body_cases:
  obtains (panic) "disposal_at g i = None"
  | (plain) d where "disposal_at g i = Some d" "d \<noteq> disposalBackground" "d \<noteq> disposalPrevious"
  | (background) "disposal_at g i = Some disposalBackground"
  | (previous) "disposal_at g i = Some disposalPrevious"
  by (cases "disposal_at g i") blast+

lemma effective_disposal_eq:
  "effective_disposal d = disposalBackground \<longleftrightarrow> d = disposalBackground"
  "effective_disposal d = disposalPrevious \<longleftrightarrow> d = disposalPrevious"
  by (auto simp: effective_disposal_def disposal_consts_distinct)

lemma loop_body_cong:
  assumes "index (Image g) i = index (Image g') i"
    and e: "map_option effective_disposal (disposal_at g i)
            = map_option effective_disposal (disposal_at g' i)"
  shows "loop_body g bounds i img = loop_body g' bounds i img"
proof (cases rule: loop_body_cases [of g i])
  case panic
  then have "disposal_at g' i = None" using e by simp
  with panic show ?thesis by (simp add: loop_body_panic)
next
  case (plain d)
  then obtain d' where d': "disposal_at g' i = Some d'" "effective_disposal d' = effective_disposal d"
    using e by (cases "disposal_at g' i") auto
  have "effective_disposal d \<noteq> disposalBackground" "effective_disposal d \<noteq> disposalPrevious"
    using plain by (simp_all add: effective_disposal_eq)
  then have "effective_disposal d' \<noteq> disposalBackground"
    "effective_disposal d' \<noteq> disposalPrevious"
    using d'(2) by simp_all
  then have "d' \<noteq> disposalBackground" "d' \<noteq> disposalPrevious"
    by (simp_all add: effective_disposal_eq)
  with plain d'(1) assms(1) show ?thesis by (simp add: loop_body_plain)
next
  case background
  then obtain d' where d': "disposal_at g' i = Some d'"
    "effective_disposal d' = effective_disposal disposalBackground"
    using e by (cases "disposal_at g' i") auto
  then have "effective_disposal d' = disposalBackground" by (simp add: effective_disposal_def)
  then have "disposal_at g' i = Some disposalBackground" using d'(1) by (simp add: effective_disposal_eq)
  with background assms(1) show ?thesis by (simp add: loop_body_Background)
next
  case previous
  then obtain d' where d': "disposal_at g' i = Some d'"
    "effective_disposal d' = effective_disposal disposalPrevious"
    using e by (cases "disposal_at g' i") auto
  then have "effective_disposal d' = disposalPrevious" by (simp add: effective_disposal_def)
  then have "disposal_at g' i = Some disposalPrevious" using d'(1) by (simp add: effective_disposal_eq)
  with previous assms(1) show ?thesis by (simp add: loop_body_Previous)
qed

lemma loop_body_wf:
  assumes wf: "wf_RGBA img" and b: "loop_body g bounds i img = Some img'"
  shows "wf_RGBA img' \<and> Rect img' = Rect img"
proof (cases rule: loop_body_cases [of g i])
  case panic
  with b show ?thesis by (simp add: loop_body_panic)
next
  case (plain d)
  with b obtain f where "drawFrame img f bounds = Some img'"
    by (auto simp: loop_body_plain split: bind_splits)
  then show ?thesis using drawFrame_wf [OF wf] by simp
next
  case background
  with b obtain img1 f where 1: "Draw img bounds Transparent ZP Src = Some img1"
    and 2: "drawFrame img1 f bounds = Some img'"
    by (auto simp: loop_body_Background split: bind_splits)
  have "wf_RGBA img1" "Rect img1 = Rect img" using Draw_wf [OF wf 1] Draw_Rect [OF 1] by simp_all
  then show ?thesis using drawFrame_wf [OF _ 2] by simp
next
  case previous
  show ?thesis
  proof (cases "i > 0")
    case False
    with previous b obtain f where "drawFrame img f bounds = Some img'"
      by (auto simp: loop_body_Previous split: bind_splits)
    then show ?thesis using drawFrame_wf [OF wf] by simp
  next
    case True
    with previous b obtain f img1 temp1 where 1: "drawFrame img f bounds = Some img1"
      and 2: "Draw img1 bounds (RGBAImage temp1) (MinPt bounds) Over = Some img'"
      by (auto simp: loop_body_Previous split: bind_splits)
    have "wf_RGBA img1" "Rect img1 = Rect img" using drawFrame_wf [OF wf 1] by simp_all
    then show ?thesis using Draw_wf [OF _ 2] Draw_Rect [OF 2] by simp
  qed
qed

lemma loop_body_Previous_simple:
  assumes wf: "wf_RGBA img" and R: "Rect img = bounds" and n: "NewRGBA bounds = Some temp"
    and d: "disposal_at g i = Some disposalPrevious" and i: "0 < i"
  shows "loop_body g bounds i img =
           index (Image g) i \<bind> (\<lambda>f. drawFrame img f bounds \<bind> (\<lambda>img1.
             Draw img1 bounds (RGBAImage img) (MinPt bounds) Over))"
  using snapshot_copy [OF wf R n] n i by (simp add: loop_body_Previous [OF d])

lemma loop_body_succeeds:
  assumes wf: "wf_RGBA img" and R: "Rect img = bounds" and n: "NewRGBA bounds = Some temp"
    and f: "index (Image g) i = Some f" and wff: "wf_Paletted f"
  shows "\<exists>img'. loop_body g bounds i img = Some img'"
proof (cases rule: loop_body_cases [of g i])
  case panic
  then show ?thesis using disposal_at_index [OF f, of g] by simp
next
  case (plain d)
  then show ?thesis using drawFrame_succeeds [OF wff] f by (simp add: loop_body_plain)
next
  case background
  obtain img1 where "Draw img bounds Transparent ZP Src = Some img1"
    using clear_succeeds by blast
  with background show ?thesis
    using drawFrame_succeeds [OF wff] f by (simp add: loop_body_Background)
next
  case previous
  show ?thesis
  proof (cases "i > 0")
    case False
    then show ?thesis
      using drawFrame_succeeds [OF wff] f previous by (simp add: loop_body_Previous)
  next
    case True
    obtain img1 where 1: "drawFrame img f bounds = Some img1"
      using drawFrame_succeeds [OF wff] by blast
    obtain d where "Draw img1 bounds (RGBAImage img) (MinPt bounds) Over = Some d"
      using restore_succeeds [OF wf] by blast
    with 1 f show ?thesis
      by (simp add: loop_body_Previous_simple [OF wf R n previous True])
  qed
qed

lemma loop_step:
  "i \<le> frame \<Longrightarrow>
   loop g bounds frame i img = loop_body g bounds i img \<bind> (\<lambda>img'. loop g bounds frame (i + 1) img')"
  by (subst loop.simps) (simp split: option.split)

lemma loop_done: "frame < i \<Longrightarrow> loop g bounds frame i img = Some img"
  by (subst loop.simps) simp

lemma loop_cong:
  assumes "\<And>j. i \<le> j \<Longrightarrow> j \<le> frame \<Longrightarrow>
             index (Image g) j = index (Image g') j \<and>
             map_option effective_disposal (disposal_at g j)
             = map_option effective_disposal (disposal_at g' j)"
  shows "loop g bounds frame i img = loop g' bounds frame i img"
  using assms
proof (induction g bounds frame i img rule: loop.induct)
  case (1 g bounds frame i img)
  show ?case
  proof (cases "i \<le> frame")
    case False
    then show ?thesis by (simp add: loop_done)
  next
    case True
    have b: "loop_body g bounds i img = loop_body g' bounds i img"
      using "1.prems" [of i] True by (intro loop_body_cong) auto
    show ?thesis
    proof (cases "loop_body g bounds i img")
      case None
      with b True show ?thesis by (simp add: loop_step)
    next
      case (Some img')
      have "loop g bounds frame (i + 1) img' = loop g' bounds frame (i + 1) img'"
        using "1.IH" [OF True Some] "1.prems" by simp
      moreover have "loop_body g' bounds i img = Some img'" using b Some by simp
      ultimately show ?thesis using Some True by (simp add: loop_step)
    qed
  qed
qed


lemma loop_succeeds:
  assumes "wf_RGBA img" "Rect img = bounds" "NewRGBA bounds = Some temp"
    and "\<And>j. i \<le> j \<Longrightarrow> j \<le> frame \<Longrightarrow> \<exists>f. index (Image g) j = Some f \<and> wf_Paletted f"
  shows "\<exists>img'. loop g bounds frame i img = Some img'"
  using assms
proof (induction g bounds frame i img rule: loop.induct)
  case (1 g bounds frame i img)
  show ?case
  proof (cases "i \<le> frame")
    case False
    then show ?thesis by (simp add: loop_done)
  next
    case True
    obtain f where f: "index (Image g) i = Some f" "wf_Paletted f"
      using "1.prems"(4) [of i] True by auto
    obtain img1 where b: "loop_body g bounds i img = Some img1"
      using loop_body_succeeds [OF "1.prems"(1-3) f] by blast
    have w: "wf_RGBA img1" "Rect img1 = bounds"
      using loop_body_wf [OF "1.prems"(1) b] "1.prems"(2) by simp_all
    have "\<exists>img'. loop g bounds frame (i + 1) img1 = Some img'"
      using "1.IH" [OF True b w "1.prems"(3)] "1.prems"(4) by simp
    with b True show ?thesis by (simp add: loop_step)
  qed
qed

subsection \<open>Evaluating the one-pixel animations\<close>

lemma Pt_sel [simp]: "X (Pt x y) = x" "Y (Pt x y) = y"
  by (simp_all add: Pt_def)

lemma px_rect_sel: "MinPt px_rect = Pt 0 0" "MaxPt px_rect = Pt 1 1" "Dx px_rect = 1" "Dy px_rect = 1"
  by (simp_all add: px_rect_def Dx_def Dy_def)

lemma px_frame_sel:
  "PalPix (px_frame k) = [k]" "PalStride (px_frame k) = 1" "PalRect (px_frame k) = px_rect"
  "Palette (px_frame k) = [red, blue, Transparent_RGBA]"
  by (simp_all add: px_frame_def)

lemma px_points: "rect_points px_rect = [Pt 0 0]"
  by (simp add: rect_points_def px_rect_sel)

lemma px_In: "In p px_rect \<longleftrightarrow> p = Pt 0 0"
  by (cases p) (auto simp: In_def px_rect_sel Pt_def)

lemma px_At:
  "PalettedAt (px_frame 0) (Pt 0 0) = Some red"
  "PalettedAt (px_frame 1) (Pt 0 0) = Some blue"
  "PalettedAt (px_frame 2) (Pt 0 0) = Some Transparent_RGBA"
  "PalettedAt (px_frame 3) (Pt 0 0) = None"
  by (simp_all add: PalettedAt_def px_frame_sel px_In PalPixOffset_def px_rect_sel index_def)

lemma px_wf: "wf_Paletted (px_frame 0)" "wf_Paletted (px_frame 1)" "wf_Paletted (px_frame 2)"
  by (simp_all add: wf_Paletted_def px_points px_At px_frame_sel px_rect_sel)

lemma px_New: "NewRGBA px_rect = Some (px_canvas Transparent_RGBA)"
  by (simp add: NewRGBA_def px_canvas_def px_rect_sel maxInt_def)

lemma px_canvas_wf: "wf_RGBA (px_canvas c)" "Rect (px_canvas c) = px_rect"
  by (simp_all add: wf_RGBA_def px_canvas_def px_rect_sel)

lemma px_canvas_At: "RGBAAt (px_canvas c) (Pt 0 0) = Some c"
  by (simp add: RGBAAt_def px_canvas_def px_In PixOffset_def index_def px_rect_sel)

lemma px_canvas_eq:
  assumes "wf_RGBA img" "Rect img = px_rect" "RGBAAt img (Pt 0 0) = Some c"
  shows "img = px_canvas c"
proof (rule RGBA_ext [OF assms(1) px_canvas_wf(1)])
  show "Rect img = Rect (px_canvas c)" using assms(2) by (simp add: px_canvas_wf)
  fix p assume "In p (Rect img)"
  then show "RGBAAt img p = RGBAAt (px_canvas c) p"
    using assms by (simp add: px_In px_canvas_At)
qed

lemma px_drawFrame:
  assumes "PalettedAt (px_frame k) (Pt 0 0) = Some s"
  shows "drawFrame (px_canvas d) (px_frame k) px_rect = Some (px_canvas (over_px s d))"
proof -
  have R: "PalRect (px_frame k) = px_rect" by (simp add: px_frame_def)
  have "wf_Paletted (px_frame k)"
    using assms by (simp add: wf_Paletted_def px_points R px_rect_sel)
  then obtain img where img: "drawFrame (px_canvas d) (px_frame k) px_rect = Some img"
    using drawFrame_succeeds by blast
  have "img = px_canvas (over_px s d)"
    using drawFrame_wf [OF px_canvas_wf(1) img]
      RGBAAt_drawFrame [OF px_canvas_wf img, of "Pt 0 0"] assms
    by (intro px_canvas_eq) (simp_all add: px_canvas_wf R px_In px_canvas_At)
  with img show ?thesis by simp
qed

lemma px_clear: "Draw (px_canvas d) px_rect Transparent ZP Src = Some (px_canvas Transparent_RGBA)"
  using clear_canvas [OF px_canvas_wf, of d] by (simp add: px_canvas_def px_rect_sel)

lemma px_restore:
  "Draw (px_canvas d) px_rect (RGBAImage (px_canvas s)) (MinPt px_rect) Over =
     Some (px_canvas (copy_over_px s d))"
proof -
  obtain img where img: "Draw (px_canvas d) px_rect (RGBAImage (px_canvas s)) (MinPt px_rect) Over = Some img"
    using restore_succeeds [OF px_canvas_wf(1)] by blast
  have "img = px_canvas (copy_over_px s d)"
    using Draw_wf [OF px_canvas_wf(1) img] Draw_Rect [OF img]
      RGBAAt_restore [OF px_canvas_wf px_canvas_wf(2) img, of "Pt 0 0"]
    by (intro px_canvas_eq) (simp_all add: px_canvas_wf px_In px_canvas_At)
  with img show ?thesis by simp
qed

lemma px_blend:
  "over_px red d = red" "over_px blue d = blue"
  "copy_over_px red d = red" "copy_over_px blue d = blue"
  by (simp_all add: over_px_opaque copy_over_px_opaque red_def blue_def)

lemma px_index:
  "index [a] 0 = Some a" "index [a, b] 0 = Some a" "index [a, b] 1 = Some b"
  "index [a, b, c] 0 = Some a" "index [a, b, c] 1 = Some b" "index [a, b, c] 2 = Some c"
  by (simp_all add: index_def)

lemmas px_eval = px_New px_drawFrame [OF px_At(1)] px_drawFrame [OF px_At(2)]
  px_drawFrame [OF px_At(3)] px_clear px_restore px_blend px_index

subsection \<open>Animations that agree up to the target index\<close>

lemma index_take: "j \<le> k \<Longrightarrow> index (take (Suc (nat k)) xs) j = index xs j"
proof (cases "0 \<le> j")
  case False
  then show ?thesis by (simp add: index_def)
next
  case True
  assume "j \<le> k"
  with True have "nat j < Suc (nat k)" by linarith
  then show ?thesis using True by (auto simp: index_def)
qed

lemma gifFrameToImage_cong:
  assumes "\<And>j. 0 \<le> j \<Longrightarrow> j \<le> k \<Longrightarrow>
             index (Image g) j = index (Image g') j \<and>
             map_option effective_disposal (disposal_at g j)
             = map_option effective_disposal (disposal_at g' j)"
  shows "gifFrameToImage g k = gifFrameToImage g' k"
proof (cases "0 \<le> k")
  case False
  then show ?thesis by (simp add: gifFrameToImage_def index_def)
next
  case True
  have i: "index (Image g) k = index (Image g') k" using assms [of k] True by simp
  have l: "loop g bounds k 0 img = loop g' bounds k 0 img" for bounds img
    by (rule loop_cong) (use assms in auto)
  show ?thesis by (simp add: gifFrameToImage_def Let_def i l cong: if_cong)
qed

lemma effective_disposal_idem [simp]:
  "effective_disposal (effective_disposal d) = effective_disposal d"
  by (simp add: effective_disposal_def disposal_consts_distinct)

lemma effective_disposal_zero [simp]: "effective_disposal 0 = disposalNone"
  by (simp add: effective_disposal_def disposalBackground_def disposalPrevious_def)

lemma effective_disposal_None [simp]: "effective_disposal disposalNone = disposalNone"
  by (simp add: effective_disposal_def)

subsection \<open>The claims on the whole compositor\<close>

text \<open>
  Claim C3. Compositing at target index 0 is frame 0 drawn alone, source-over, onto a freshly
  allocated transparent canvas of frame 0's own bounds. The disposal list plays no part: the
  result is the same whatever list \<open>ds\<close> replaces it, so no disposal of a preceding frame is
  applied whatever frame 0's disposal code is.
\<close>

theorem first_frame_drawn_alone:
  "Image g \<noteq> [] \<Longrightarrow>
   gifFrameToImage g 0 = draw_alone (Image g ! 0) \<and>
   gifFrameToImage (g\<lparr>Disposal := ds\<rparr>) 0 = draw_alone (Image g ! 0)"
  by (simp add: gifFrameToImage_def draw_alone_def index_def Let_def)

theorem first_frame_drawn_alone_witness:
  "gifFrameToImage \<lparr>Image = [px_frame 0, px_frame 1], Disposal = [disposalPrevious]\<rparr> 0
     = draw_alone (px_frame 0) \<and>
   gifFrameToImage \<lparr>Image = [px_frame 0, px_frame 1], Disposal = [disposalBackground]\<rparr> 0
     = draw_alone (px_frame 0) \<and>
   draw_alone (px_frame 0) = Some (px_canvas red)"
  using first_frame_drawn_alone
    [of "\<lparr>Image = [px_frame 0, px_frame 1], Disposal = [disposalPrevious]\<rparr>" "[disposalBackground]"]
  by (simp add: draw_alone_def px_eval px_frame_sel)

text \<open>
  Claim C8. The composite at index \<open>k\<close> depends only on the frames and the disposal entries
  at the indices \<open>0..k\<close>: two animations that agree on the first \<open>k + 1\<close> frames and on
  the disposal byte looked up at every index up to \<open>k\<close> have the same composite at \<open>k\<close>,
  whatever frames and codes follow.
\<close>

theorem prefix_independence:
  "take (nat k + 1) (Image g') = take (nat k + 1) (Image g) \<Longrightarrow>
   (\<forall>i. 0 \<le> i \<and> i \<le> k \<longrightarrow> disposal_at g' i = disposal_at g i) \<Longrightarrow>
   gifFrameToImage g' k = gifFrameToImage g k"
proof (rule gifFrameToImage_cong)
  fix j assume t: "take (nat k + 1) (Image g') = take (nat k + 1) (Image g)"
    and d: "\<forall>i. 0 \<le> i \<and> i \<le> k \<longrightarrow> disposal_at g' i = disposal_at g i"
    and j: "0 \<le> j" "j \<le> k"
  have "index (Image g') j = index (take (Suc (nat k)) (Image g')) j"
    using j by (simp add: index_take)
  also have "\<dots> = index (Image g) j" using j t by (simp add: index_take)
  finally show "index (Image g') j = index (Image g) j \<and>
      map_option effective_disposal (disposal_at g' j)
      = map_option effective_disposal (disposal_at g j)"
    using d j by simp
qed

theorem prefix_independence_witness:
  "gifFrameToImage \<lparr>Image = [px_frame 0, px_frame 2] @ [px_frame 1, px_frame 0],
                    Disposal = [disposalNone, disposalPrevious] @ [disposalBackground]\<rparr> 1
   = gifFrameToImage \<lparr>Image = [px_frame 0, px_frame 2],
                      Disposal = [disposalNone, disposalPrevious]\<rparr> 1"
proof -
  let ?g' = "\<lparr>Image = [px_frame 0, px_frame 2] @ [px_frame 1, px_frame 0],
              Disposal = [disposalNone, disposalPrevious] @ [disposalBackground]\<rparr>"
  let ?g = "\<lparr>Image = [px_frame 0, px_frame 2], Disposal = [disposalNone, disposalPrevious]\<rparr>"
  have frames: "take (nat 1 + 1) (Image ?g') = take (nat 1 + 1) (Image ?g)" by simp
  have "disposal_at ?g' i = disposal_at ?g i" if "0 \<le> i \<and> i \<le> 1" for i
  proof -
    from that have "i = 0 \<or> i = 1" by linarith
    then show ?thesis by (auto simp: disposal_at_def index_def)
  qed
  then have codes: "\<forall>i. 0 \<le> i \<and> i \<le> 1 \<longrightarrow> disposal_at ?g' i = disposal_at ?g i" by blast
  show ?thesis by (rule prefix_independence [OF frames codes])
qed

lemma disposal_at_padded:
  "0 \<le> j \<Longrightarrow>
   map_option effective_disposal
     (disposal_at (g\<lparr>Disposal := Disposal g @ replicate n disposalNone\<rparr>) j)
   = map_option effective_disposal (disposal_at g j)"
  by (auto simp: disposal_at_def index_def nth_append)

lemma disposal_at_effective:
  "map_option effective_disposal
     (disposal_at (g\<lparr>Disposal := map effective_disposal (Disposal g)\<rparr>) j)
   = map_option effective_disposal (disposal_at g j)"
  by (auto simp: disposal_at_def index_def)

lemma gifFrameToImage_succeeds:
  assumes wf: "list_all wf_Paletted (Image g)" and k: "0 \<le> k" "k < int (length (Image g))"
  shows "\<exists>img. gifFrameToImage g k = Some img"
proof -
  have fr: "\<exists>f. index (Image g) j = Some f \<and> wf_Paletted f" if "0 \<le> j" "j \<le> k" for j
    using that k wf by (simp add: index_def list_all_length)
  then obtain f where f: "index (Image g) k = Some f" "wf_Paletted f" using k by blast
  obtain img0 where n: "NewRGBA (PalRect f) = Some img0" using wf_Paletted_NewRGBA [OF f(2)] by blast
  show ?thesis
  proof (cases "k = 0")
    case True
    then show ?thesis using f n drawFrame_succeeds [OF f(2)] by (simp add: gifFrameToImage_def)
  next
    case False
    have "\<exists>img. loop g (PalRect f) k 0 img0 = Some img"
      using NewRGBA_props(1,2) [OF n] n fr by (intro loop_succeeds) auto
    then show ?thesis using f n False by (simp add: gifFrameToImage_def)
  qed
qed


text \<open>
  Claim C6. With well-formed frames, compositing any valid target index returns a raster,
  however short the disposal list is (the empty list included): the lookup is guarded by
  \<open>i < len(gif.Disposal)\<close>, an index without an entry switches on the byte 0, and the
  composite is the one of the animation whose disposal list is filled up with
  \<open>disposalNone\<close>.
\<close>

theorem short_disposal_list_defaults:
  "list_all wf_Paletted (Image g) \<Longrightarrow> 0 \<le> k \<Longrightarrow> k < int (length (Image g)) \<Longrightarrow>
   (\<exists>img. gifFrameToImage g k = Some img) \<and>
   gifFrameToImage g k =
     gifFrameToImage
       (g\<lparr>Disposal := Disposal g @ replicate (length (Image g) - length (Disposal g)) disposalNone\<rparr>) k \<and>
   (\<forall>i. int (length (Disposal g)) \<le> i \<longrightarrow> disposal_at g i = Some 0 \<and>
        loop_body g bounds i img = index (Image g) i \<bind> (\<lambda>f. drawFrame img f bounds))"
proof (intro conjI allI impI)
  assume "list_all wf_Paletted (Image g)" "0 \<le> k" "k < int (length (Image g))"
  then show "\<exists>img. gifFrameToImage g k = Some img" by (rule gifFrameToImage_succeeds)
next
  show "gifFrameToImage g k =
     gifFrameToImage
       (g\<lparr>Disposal := Disposal g @ replicate (length (Image g) - length (Disposal g)) disposalNone\<rparr>) k"
    by (rule gifFrameToImage_cong) (simp add: disposal_at_padded)
next
  fix i assume "int (length (Disposal g)) \<le> i"
  then show "disposal_at g i = Some 0" by (simp add: disposal_at_def)
next
  fix i assume "int (length (Disposal g)) \<le> i"
  then have "disposal_at g i = Some 0" by (simp add: disposal_at_def)
  then show "loop_body g bounds i img = index (Image g) i \<bind> (\<lambda>f. drawFrame img f bounds)"
    by (simp add: loop_body_plain [of _ _ 0] disposalBackground_def disposalPrevious_def)
qed

theorem short_disposal_list_defaults_witness:
  "gifFrameToImage \<lparr>Image = [px_frame 0, px_frame 2], Disposal = [disposalBackground]\<rparr> 1
     = Some (px_canvas red) \<and>
   gifFrameToImage \<lparr>Image = [px_frame 0, px_frame 2], Disposal = []\<rparr> 1
     = Some (px_canvas red) \<and>
   disposal_at \<lparr>Image = [px_frame 0, px_frame 2], Disposal = [disposalBackground]\<rparr> 1 = Some 0"
proof -
  let ?g = "\<lparr>Image = [px_frame 0, px_frame 2], Disposal = [disposalBackground]\<rparr>"
  let ?e = "\<lparr>Image = [px_frame 0, px_frame 2], Disposal = []\<rparr>"
  have wf: "list_all wf_Paletted (Image ?g)" "list_all wf_Paletted (Image ?e)"
    by (simp_all add: px_wf)
  have k: "(0::int) \<le> 1" "1 < int (length (Image ?g))" "1 < int (length (Image ?e))"
    by simp_all
  have v: "gifFrameToImage
             \<lparr>Image = [px_frame 0, px_frame 2], Disposal = [disposalBackground, disposalNone]\<rparr> 1
           = Some (px_canvas red)"
    "gifFrameToImage
             \<lparr>Image = [px_frame 0, px_frame 2], Disposal = [disposalNone, disposalNone]\<rparr> 1
           = Some (px_canvas red)"
    by (simp_all add: gifFrameToImage_def loop.simps loop_body_def disposal_at_def px_eval
          px_frame_sel disposal_consts_distinct)
  have "gifFrameToImage ?g 1 = Some (px_canvas red)"
    "disposal_at ?g 1 = Some 0"
    using short_disposal_list_defaults [OF wf(1) k(1,2), of px_rect "px_canvas red"] v(1)
    by simp_all
  moreover have "gifFrameToImage ?e 1 = Some (px_canvas red)"
    using short_disposal_list_defaults [OF wf(2) k(1,3), of px_rect "px_canvas red"] v(2)
    by (simp add: numeral_2_eq_2)
  ultimately show ?thesis by blast
qed

text \<open>
  Claim C7. A disposal byte other than 1, 2 and 3 (the fourth GIF value, 0, or any other)
  falls into the default case of the switch: the loop body is the plain source-over draw of
  frame \<open>i\<close> onto the canvas as it stands, the same as for \<open>disposalNone\<close>; and rewriting
  every such byte of an animation to \<open>disposalNone\<close> changes no composite.
\<close>

theorem unrecognised_disposal_draws_like_None:
  "disposal_at g i = Some d \<Longrightarrow>
   d \<noteq> disposalNone \<Longrightarrow> d \<noteq> disposalBackground \<Longrightarrow> d \<noteq> disposalPrevious \<Longrightarrow>
   loop_body g bounds i img = index (Image g) i \<bind> (\<lambda>f. drawFrame img f bounds) \<and>
   (\<forall>g'. Image g' = Image g \<and> disposal_at g' i = Some disposalNone \<longrightarrow>
      loop_body g' bounds i img = loop_body g bounds i img) \<and>
   gifFrameToImage (g\<lparr>Disposal := map effective_disposal (Disposal g)\<rparr>) k = gifFrameToImage g k"
proof (intro conjI allI impI)
  assume d: "disposal_at g i = Some d" "d \<noteq> disposalBackground" "d \<noteq> disposalPrevious"
  show "loop_body g bounds i img = index (Image g) i \<bind> (\<lambda>f. drawFrame img f bounds)"
    by (rule loop_body_plain [OF d])
  fix g' assume "Image g' = Image g \<and> disposal_at g' i = Some disposalNone"
  then show "loop_body g' bounds i img = loop_body g bounds i img"
    using d by (simp add: loop_body_plain [of _ _ disposalNone] loop_body_plain [of _ _ d]
        disposal_consts_distinct)
next
  show "gifFrameToImage (g\<lparr>Disposal := map effective_disposal (Disposal g)\<rparr>) k = gifFrameToImage g k"
    by (rule gifFrameToImage_cong) (simp add: disposal_at_effective)
qed

theorem unrecognised_disposal_draws_like_None_witness:
  "loop_body \<lparr>Image = [px_frame 0, px_frame 1], Disposal = [4, 0]\<rparr> px_rect 1 (px_canvas red)
     = Some (px_canvas blue) \<and>
   loop_body \<lparr>Image = [px_frame 0, px_frame 1], Disposal = [4, disposalNone]\<rparr> px_rect 1 (px_canvas red)
     = Some (px_canvas blue) \<and>
   gifFrameToImage \<lparr>Image = [px_frame 0, px_frame 1], Disposal = [disposalNone, disposalNone]\<rparr> 1
     = gifFrameToImage \<lparr>Image = [px_frame 0, px_frame 1], Disposal = [4, 0]\<rparr> 1"
proof -
  let ?g = "\<lparr>Image = [px_frame 0, px_frame 1], Disposal = [4, 0]\<rparr>"
  let ?g' = "\<lparr>Image = [px_frame 0, px_frame 1], Disposal = [4, disposalNone]\<rparr>"
  have d: "disposal_at ?g 1 = Some 0" "(0 :: 8 word) \<noteq> disposalNone"
    "(0 :: 8 word) \<noteq> disposalBackground" "(0 :: 8 word) \<noteq> disposalPrevious"
    by (simp_all add: disposal_at_def index_def disposalNone_def disposalBackground_def
        disposalPrevious_def)
  have e: "map effective_disposal [4, 0] = [disposalNone, disposalNone]"
    by (simp add: effective_disposal_def disposalNone_def disposalBackground_def disposalPrevious_def)
  have g': "Image ?g' = Image ?g \<and> disposal_at ?g' 1 = Some disposalNone"
    by (simp add: disposal_at_def index_def)
  show ?thesis
    using unrecognised_disposal_draws_like_None [OF d, of px_rect "px_canvas red" 1] g' e
    by (simp add: px_eval)
qed

subsection \<open>What one pass of the loop does to a pixel\<close>




lemma previous_step_pixel:
  assumes wf: "wf_RGBA img" and R: "Rect img = bounds" and n: "NewRGBA bounds = Some temp"
    and d: "disposal_at g i = Some disposalPrevious" and i: "0 < i"
    and f: "index (Image g) i = Some f"
    and 1: "drawFrame img f bounds = Some img1"
    and b: "loop_body g bounds i img = Some img'"
    and p: "In p bounds" "RGBAAt img p = Some s"
  shows "RGBAAt img' p = Some (copy_over_px s (the (RGBAAt img1 p)))"
proof -
  have 2: "Draw img1 bounds (RGBAImage img) (MinPt bounds) Over = Some img'"
    using b f 1 by (simp add: loop_body_Previous_simple [OF wf R n d i])
  have w1: "wf_RGBA img1" "Rect img1 = bounds" using drawFrame_wf [OF wf 1] R by simp_all
  show ?thesis using RGBAAt_restore [OF w1 R 2, of p] p by simp
qed


subsection \<open>The claims on one pass of the loop\<close>




text \<open>
  Claim C4. In a pass whose disposal byte is \<open>disposalPrevious\<close> at an index \<open>i > 0\<close>, the
  temporary raster drawn from the canvas is an exact copy of the canvas; frame \<open>i\<close> is drawn
  source-over onto the live canvas; and the copy is drawn back source-over, so that each pixel
  of the result is the snapshot pixel blended over the freshly drawn pixel: where the
  snapshot is transparent the pixel of the drawn frame stays, where it is opaque the snapshot
  pixel returns. At \<open>i = 0\<close> the pass is the plain draw of frame 0.
\<close>

theorem previous_snapshot_draw_restore:
  "disposal_at g i = Some disposalPrevious \<Longrightarrow> index (Image g) i = Some f \<Longrightarrow>
   wf_RGBA img \<Longrightarrow> Rect img = bounds \<Longrightarrow> NewRGBA bounds = Some temp \<Longrightarrow>
   (0 < i \<longrightarrow>
      Draw temp bounds (RGBAImage img) (MinPt bounds) Over = Some img \<and>
      loop_body g bounds i img
        = drawFrame img f bounds \<bind> (\<lambda>img1. Draw img1 bounds (RGBAImage img) (MinPt bounds) Over) \<and>
      (\<forall>img1 img' p s.
         drawFrame img f bounds = Some img1 \<and> loop_body g bounds i img = Some img' \<and>
         In p bounds \<and> RGBAAt img p = Some s \<longrightarrow>
           RGBAAt img' p = Some (copy_over_px s (the (RGBAAt img1 p))) \<and>
           (s = Transparent_RGBA \<longrightarrow> RGBAAt img' p = RGBAAt img1 p) \<and>
           (A s = 255 \<longrightarrow> RGBAAt img' p = Some s))) \<and>
   (i = 0 \<longrightarrow> loop_body g bounds i img = drawFrame img f bounds)"
proof (intro conjI allI impI)
  assume d: "disposal_at g i = Some disposalPrevious" and f: "index (Image g) i = Some f"
    and wf: "wf_RGBA img" and R: "Rect img = bounds" and n: "NewRGBA bounds = Some temp"
  {
    assume "i = 0"
    then have "loop_body g bounds i img = index (Image g) i \<bind> (\<lambda>f. drawFrame img f bounds)"
      by (subst loop_body_Previous [OF d]) simp
    then show "loop_body g bounds i img = drawFrame img f bounds"
      using f by simp
  }
  assume i: "0 < i"
  show "Draw temp bounds (RGBAImage img) (MinPt bounds) Over = Some img"
    by (rule snapshot_copy [OF wf R n])
  show "loop_body g bounds i img
        = drawFrame img f bounds \<bind> (\<lambda>img1. Draw img1 bounds (RGBAImage img) (MinPt bounds) Over)"
    using f by (simp add: loop_body_Previous_simple [OF wf R n d i])
  fix img1 img' p s
  assume a: "drawFrame img f bounds = Some img1 \<and> loop_body g bounds i img = Some img' \<and>
         In p bounds \<and> RGBAAt img p = Some s"
  then have b: "loop_body g bounds i img = Some img'" by simp
  have w1: "wf_RGBA img1" using drawFrame_wf [OF wf, of f bounds img1] a by simp
  have a1: "drawFrame img f bounds = Some img1" and ap: "In p bounds" "RGBAAt img p = Some s"
    using a by simp_all
  show px: "RGBAAt img' p = Some (copy_over_px s (the (RGBAAt img1 p)))"
    by (rule previous_step_pixel [OF wf R n d i f a1 b ap])
  {
    assume "s = Transparent_RGBA"
    then show "RGBAAt img' p = RGBAAt img1 p"
      using px RGBAAt_total [OF w1, of p] by auto
  }
  {
    assume "A s = 255"
    then show "RGBAAt img' p = Some s" using px by (simp add: copy_over_px_opaque)
  }
qed

theorem previous_snapshot_draw_restore_witness:
  "Draw (px_canvas Transparent_RGBA) px_rect (RGBAImage (px_canvas red)) (MinPt px_rect) Over
     = Some (px_canvas red) \<and>
   loop_body \<lparr>Image = [px_frame 2, px_frame 1], Disposal = [disposalPrevious, disposalPrevious]\<rparr>
     px_rect 1 (px_canvas red) = Some (px_canvas red) \<and>
   loop_body \<lparr>Image = [px_frame 2, px_frame 1], Disposal = [disposalPrevious, disposalPrevious]\<rparr>
     px_rect 1 (px_canvas Transparent_RGBA) = Some (px_canvas blue) \<and>
   loop_body \<lparr>Image = [px_frame 2, px_frame 1], Disposal = [disposalPrevious, disposalPrevious]\<rparr>
     px_rect 0 (px_canvas red) = Some (px_canvas red)"
proof -
  let ?g = "\<lparr>Image = [px_frame 2, px_frame 1], Disposal = [disposalPrevious, disposalPrevious]\<rparr>"
  have d: "disposal_at ?g 1 = Some disposalPrevious" "disposal_at ?g 0 = Some disposalPrevious"
    by (simp_all add: disposal_at_def index_def)
  have f: "index (Image ?g) 1 = Some (px_frame 1)" "index (Image ?g) 0 = Some (px_frame 2)"
    by (simp_all add: index_def)
  have pos: "(0::int) < 1" by simp
  note on_red = previous_snapshot_draw_restore
    [OF d(1) f(1) px_canvas_wf px_New, of red, THEN conjunct1, THEN mp, OF pos]
  note on_clear = previous_snapshot_draw_restore
    [OF d(1) f(1) px_canvas_wf px_New, of Transparent_RGBA, THEN conjunct1, THEN mp, OF pos]
  note at_0 = previous_snapshot_draw_restore
    [OF d(2) f(2) px_canvas_wf px_New, of red, THEN conjunct2, THEN mp, OF refl]
  have "Draw (px_canvas Transparent_RGBA) px_rect (RGBAImage (px_canvas red)) (MinPt px_rect) Over
     = Some (px_canvas red)"
    by (rule on_red [THEN conjunct1])
  moreover have "loop_body ?g px_rect 1 (px_canvas red) = Some (px_canvas red)"
    by (simp add: on_red [THEN conjunct2, THEN conjunct1] px_eval)
  moreover have "loop_body ?g px_rect 1 (px_canvas Transparent_RGBA) = Some (px_canvas blue)"
    by (simp add: on_clear [THEN conjunct2, THEN conjunct1] px_eval)
  moreover have "loop_body ?g px_rect 0 (px_canvas red) = Some (px_canvas red)"
    by (simp add: at_0 px_eval px_blend)
  ultimately show ?thesis by blast
qed



subsection \<open>The claims on two and three frames\<close>









subsection \<open>The compositor on a heap computes what the functional compositor computes\<close>

lemma rel_option_bindI:
  "rel_option P m m' \<Longrightarrow> (\<And>x y. P x y \<Longrightarrow> rel_option Q (f x) (f' y)) \<Longrightarrow>
   rel_option Q (m \<bind> f) (m' \<bind> f')"
  by (cases m; cases m') auto

lemma Draw_h_eq:
  "deref_RGBA h dst = Some d \<Longrightarrow> resolve h src = Some s \<Longrightarrow>
   Draw_h dst r src sp op h = map_option (\<lambda>d'. h[dst := RGBAObj d']) (Draw d r s sp op)"
  by (cases "Draw d r s sp op") (simp_all add: Draw_h_def)

lemma deref_RGBA_eq: "a < length h \<Longrightarrow> h ! a = RGBAObj img \<Longrightarrow> deref_RGBA h a = Some img"
  by (simp add: deref_RGBA_def)

lemma resolve_RGBA: "a < length h \<Longrightarrow> h ! a = RGBAObj img \<Longrightarrow> resolve h (Ref a) = Some (RGBAImage img)"
  by (simp add: resolve_def)

lemma resolve_Paletted:
  "a < length h \<Longrightarrow> h ! a = PalettedObj f \<Longrightarrow> resolve h (Ref a) = Some (PalettedImage f)"
  by (simp add: resolve_def)

lemma drawFrame_h_eq:
  assumes "a < length h" "h ! a = RGBAObj img" "fr < length h" "h ! fr = PalettedObj f"
  shows "drawFrame_h a fr bounds h = map_option (\<lambda>d'. h[a := RGBAObj d']) (drawFrame img f bounds)"
  using assms
  by (simp add: drawFrame_h_def deref_Paletted_def drawFrame_def
      Draw_h_eq [OF deref_RGBA_eq resolve_Paletted])

lemma clear_h_eq:
  assumes "a < length h" "h ! a = RGBAObj img"
  shows "Draw_h a bounds TransparentRef ZP Src h
           = map_option (\<lambda>d'. h[a := RGBAObj d']) (Draw img bounds Transparent ZP Src)"
  using assms by (simp add: Draw_h_eq [OF deref_RGBA_eq] resolve_def)

lemma holds_index:
  assumes "holds h0 gr g"
  shows "rel_option (\<lambda>fr f. fr < length h0 \<and> h0 ! fr = PalettedObj f)
           (index (Image gr) i) (index (Image g) i)"
proof -
  have l: "list_all2 (\<lambda>a f. a < length h0 \<and> h0 ! a = PalettedObj f) (Image gr) (Image g)"
    using assms by (simp add: holds_def)
  have len: "length (Image gr) = length (Image g)" by (rule list_all2_lengthD [OF l])
  show ?thesis
    using list_all2_nthD [OF l, of "nat i"] len by (auto simp: index_def)
qed

lemma holds_disposal: "holds h0 gr g \<Longrightarrow> disposal_at gr i = disposal_at g i"
  by (simp add: holds_def disposal_at_def)

lemma frame_in_extension:
  assumes "take (length h0) h = h0" "fr < length h0"
  shows "fr < length h" and "h ! fr = h0 ! fr"
proof -
  have "length h0 \<le> length h" using assms(1) by (metis length_take min.cobounded1)
  then show "fr < length h" using assms(2) by simp
  show "h ! fr = h0 ! fr" using assms by (metis nth_take)
qed

text \<open>
  One pass of the loop on the heap: it fails when the functional pass fails, and otherwise
  leaves the heap as it was, perhaps longer by the temporary raster, with the new canvas
  written at the canvas address.
\<close>

lemma loop_body_h_sim:
  assumes ho: "holds h0 gr g" and ext: "take (length h0) h = h0"
    and a: "a < length h" "h ! a = RGBAObj img"
  shows "rel_option (\<lambda>h' img'. \<exists>junk. h' = (h @ junk)[a := RGBAObj img'])
           (loop_body_h gr bounds i a h) (loop_body g bounds i img)"
proof -
  note fi = holds_index [OF ho, of i]
  have dd: "disposal_at gr i = disposal_at g i" by (rule holds_disposal [OF ho])
  have plain: "rel_option (\<lambda>h' img'. \<exists>junk. h' = (h @ junk)[a := RGBAObj img'])
      (index (Image gr) i \<bind> (\<lambda>fr. drawFrame_h a fr bounds h))
      (index (Image g) i \<bind> (\<lambda>f. drawFrame img f bounds))"
  proof (rule rel_option_bindI [OF fi])
    fix fr f assume "fr < length h0 \<and> h0 ! fr = PalettedObj f"
    then have "fr < length h" "h ! fr = PalettedObj f" using frame_in_extension [OF ext] by auto
    then have e: "drawFrame_h a fr bounds h
        = map_option (\<lambda>d'. h[a := RGBAObj d']) (drawFrame img f bounds)"
      by (rule drawFrame_h_eq [OF a])
    show "rel_option (\<lambda>h' img'. \<exists>junk. h' = (h @ junk)[a := RGBAObj img'])
        (drawFrame_h a fr bounds h) (drawFrame img f bounds)"
    proof (cases "drawFrame img f bounds")
      case None
      then show ?thesis by (simp add: e)
    next
      case (Some d')
      have "h[a := RGBAObj d'] = (h @ [])[a := RGBAObj d']" by simp
      then show ?thesis unfolding e Some by (simp del: append_Nil2) blast
    qed
  qed
  show ?thesis
  proof (cases rule: loop_body_cases [of g i])
    case panic
    then show ?thesis by (simp add: loop_body_panic loop_body_h_def dd)
  next
    case (plain d)
    then have "loop_body_h gr bounds i a h = index (Image gr) i \<bind> (\<lambda>fr. drawFrame_h a fr bounds h)"
      by (simp add: loop_body_h_def dd)
    with plain \<open>rel_option _ (index (Image gr) i \<bind> _) _\<close> show ?thesis
      by (simp add: loop_body_plain)
  next
    case previous
    show ?thesis
    proof (cases "0 < i")
      case False
      then have "loop_body_h gr bounds i a h
          = index (Image gr) i \<bind> (\<lambda>fr. drawFrame_h a fr bounds h)"
        using previous by (simp add: loop_body_h_def dd disposal_consts_distinct)
      with False previous \<open>rel_option _ (index (Image gr) i \<bind> _) _\<close> show ?thesis
        by (simp add: loop_body_Previous)
    next
      case True
      have lh: "loop_body_h gr bounds i a h =
          NewRGBA_h bounds h \<bind> (\<lambda>(temp, h1).
          Draw_h temp bounds (Ref a) (MinPt bounds) Over h1 \<bind> (\<lambda>h2.
          index (Image gr) i \<bind> (\<lambda>fr.
          drawFrame_h a fr bounds h2 \<bind> (\<lambda>h3.
          Draw_h a bounds (Ref temp) (MinPt bounds) Over h3))))"
        using previous True by (simp add: loop_body_h_def dd disposal_consts_distinct)
      show ?thesis
      proof (cases "NewRGBA bounds")
        case None
        then show ?thesis using True by (simp add: lh NewRGBA_h_def loop_body_Previous [OF previous])
      next
        case (Some temp)
        let ?t = "length h"
        let ?h1 = "h @ [RGBAObj temp]"
        have n: "NewRGBA_h bounds h = Some (?t, ?h1)" by (simp add: NewRGBA_h_def Some)
        have s1: "Draw_h ?t bounds (Ref a) (MinPt bounds) Over ?h1
            = map_option (\<lambda>d'. ?h1[?t := RGBAObj d'])
                (Draw temp bounds (RGBAImage img) (MinPt bounds) Over)"
          using a by (intro Draw_h_eq deref_RGBA_eq resolve_RGBA) (simp_all add: nth_append)
        show ?thesis
        proof (cases "Draw temp bounds (RGBAImage img) (MinPt bounds) Over")
          case None
          then show ?thesis
            using True Some by (simp add: lh n s1 loop_body_Previous [OF previous])
        next
          case temp1: (Some temp1)
          let ?h2 = "h @ [RGBAObj temp1]"
          have h2: "?h1[?t := RGBAObj temp1] = ?h2" by simp
          have pure: "loop_body g bounds i img =
              index (Image g) i \<bind> (\<lambda>f. drawFrame img f bounds \<bind> (\<lambda>img1.
                Draw img1 bounds (RGBAImage temp1) (MinPt bounds) Over))"
            using True Some temp1 by (simp add: loop_body_Previous [OF previous])
          have heap: "loop_body_h gr bounds i a h =
              index (Image gr) i \<bind> (\<lambda>fr. drawFrame_h a fr bounds ?h2 \<bind> (\<lambda>h3.
                Draw_h a bounds (Ref ?t) (MinPt bounds) Over h3))"
            by (simp add: lh n s1 temp1 h2)
          show ?thesis unfolding pure heap
          proof (rule rel_option_bindI [OF fi])
            fix fr f assume "fr < length h0 \<and> h0 ! fr = PalettedObj f"
            then have fr: "fr < length h" "h ! fr = PalettedObj f"
              using frame_in_extension [OF ext] by auto
            have e: "drawFrame_h a fr bounds ?h2
                = map_option (\<lambda>d'. ?h2[a := RGBAObj d']) (drawFrame img f bounds)"
              using a fr by (intro drawFrame_h_eq) (simp_all add: nth_append)
            show "rel_option (\<lambda>h' img'. \<exists>junk. h' = (h @ junk)[a := RGBAObj img'])
                (drawFrame_h a fr bounds ?h2 \<bind> (\<lambda>h3. Draw_h a bounds (Ref ?t) (MinPt bounds) Over h3))
                (drawFrame img f bounds \<bind> (\<lambda>img1. Draw img1 bounds (RGBAImage temp1) (MinPt bounds) Over))"
            proof (cases "drawFrame img f bounds")
              case None
              then show ?thesis by (simp add: e)
            next
              case img1: (Some img1)
              let ?h3 = "?h2[a := RGBAObj img1]"
              have r: "Draw_h a bounds (Ref ?t) (MinPt bounds) Over ?h3
                  = map_option (\<lambda>d'. ?h3[a := RGBAObj d'])
                      (Draw img1 bounds (RGBAImage temp1) (MinPt bounds) Over)"
                using a by (intro Draw_h_eq deref_RGBA_eq resolve_RGBA) (simp_all add: nth_append)
              show ?thesis
              proof (cases "Draw img1 bounds (RGBAImage temp1) (MinPt bounds) Over")
                case None
                then show ?thesis by (simp add: e img1 r)
              next
                case (Some d')
                have "?h3[a := RGBAObj d'] = (h @ [RGBAObj temp1])[a := RGBAObj d']" by simp
                then show ?thesis by (simp add: e img1 r Some) blast
              qed
            qed
          qed
        qed
      qed
    qed
  next
    case background
    have lh: "loop_body_h gr bounds i a h =
        Draw_h a bounds TransparentRef ZP Src h \<bind> (\<lambda>h1.
          index (Image gr) i \<bind> (\<lambda>fr. drawFrame_h a fr bounds h1))"
      using background by (simp add: loop_body_h_def dd disposal_consts_distinct)
    show ?thesis
    proof (cases "Draw img bounds Transparent ZP Src")
      case None
      then show ?thesis
        by (simp add: lh clear_h_eq [OF a] loop_body_Background [OF background])
    next
      case (Some img1)
      let ?h1 = "h[a := RGBAObj img1]"
      have pure: "loop_body g bounds i img = index (Image g) i \<bind> (\<lambda>f. drawFrame img1 f bounds)"
        by (simp add: loop_body_Background [OF background] Some)
      have heap: "loop_body_h gr bounds i a h
          = index (Image gr) i \<bind> (\<lambda>fr. drawFrame_h a fr bounds ?h1)"
        by (simp add: lh clear_h_eq [OF a] Some)
      show ?thesis unfolding pure heap
      proof (rule rel_option_bindI [OF fi])
        fix fr f assume f: "fr < length h0 \<and> h0 ! fr = PalettedObj f"
        then have fr: "fr < length h" "h ! fr = PalettedObj f"
          using frame_in_extension [OF ext] by auto
        have "fr \<noteq> a" using fr(2) a(2) by auto
        then have e: "drawFrame_h a fr bounds ?h1
            = map_option (\<lambda>d'. ?h1[a := RGBAObj d']) (drawFrame img1 f bounds)"
          using a fr by (intro drawFrame_h_eq) simp_all
        show "rel_option (\<lambda>h' img'. \<exists>junk. h' = (h @ junk)[a := RGBAObj img'])
            (drawFrame_h a fr bounds ?h1) (drawFrame img1 f bounds)"
        proof (cases "drawFrame img1 f bounds")
          case None
          then show ?thesis by (simp add: e)
        next
          case (Some d')
          have "?h1[a := RGBAObj d'] = (h @ [])[a := RGBAObj d']" by simp
          then show ?thesis unfolding e Some by (simp del: append_Nil2) blast
        qed
      qed
    qed
  qed
qed

lemma loop_h_step:
  "i \<le> frame \<Longrightarrow>
   loop_h g bounds frame i img h
     = loop_body_h g bounds i img h \<bind> (\<lambda>h'. loop_h g bounds frame (i + 1) img h')"
  by (subst loop_h.simps) (simp split: option.split)

lemma loop_h_done: "frame < i \<Longrightarrow> loop_h g bounds frame i img h = Some h"
  by (subst loop_h.simps) simp

lemma loop_h_sim:
  assumes "length h0 \<le> a"
  shows "holds h0 gr g \<Longrightarrow> take (length h0) h = h0 \<Longrightarrow> a < length h \<Longrightarrow> h ! a = RGBAObj img \<Longrightarrow>
         rel_option (\<lambda>h' img'. \<exists>junk. h' = (h @ junk)[a := RGBAObj img'])
           (loop_h gr bounds frame i a h) (loop g bounds frame i img)"
proof (induction g bounds frame i img arbitrary: h rule: loop.induct)
  case (1 g bounds frame i img)
  show ?case
  proof (cases "i \<le> frame")
    case False
    have "h = (h @ [])[a := RGBAObj img]" using "1.prems"(4) list_update_id [of h a] by simp
    then show ?thesis using False by (simp add: loop_done loop_h_done del: append_Nil2) blast
  next
    case True
    note b = loop_body_h_sim [OF "1.prems", of bounds i]
    show ?thesis
    proof (cases "loop_body g bounds i img")
      case None
      then have "loop_body_h gr bounds i a h = None"
        using b by (cases "loop_body_h gr bounds i a h") auto
      with None show ?thesis using True by (simp add: loop_step loop_h_step)
    next
      case (Some img')
      then obtain junk where h': "loop_body_h gr bounds i a h = Some ((h @ junk)[a := RGBAObj img'])"
        using b by (cases "loop_body_h gr bounds i a h") auto
      let ?h' = "(h @ junk)[a := RGBAObj img']"
      have t: "take (length h0) ?h' = h0"
        using "1.prems"(2,3) assms by (simp add: take_update_cancel)
      have l: "a < length ?h'" "?h' ! a = RGBAObj img'" using "1.prems"(3) by simp_all
      have "rel_option (\<lambda>h'' img''. \<exists>junk'. h'' = (?h' @ junk')[a := RGBAObj img''])
              (loop_h gr bounds frame (i + 1) a ?h') (loop g bounds frame (i + 1) img')"
        by (rule "1.IH" [OF True Some "1.prems"(1) t l])
      moreover have "(?h' @ junk')[a := x] = (h @ (junk @ junk'))[a := x]" for junk' x
        using "1.prems"(3) by (simp add: list_update_append)
      ultimately have "rel_option (\<lambda>h'' img''. \<exists>junk'. h'' = (h @ junk')[a := RGBAObj img''])
              (loop_h gr bounds frame (i + 1) a ?h') (loop g bounds frame (i + 1) img')"
        by (auto elim!: option.rel_mono_strong)
      then show ?thesis using True Some h' by (simp add: loop_step loop_h_step)
    qed
  qed
qed

lemma holds_extension: "holds h gr g \<Longrightarrow> holds (h @ objs) gr g"
  unfolding holds_def
  by (auto elim!: list_all2_mono simp: nth_append)

lemma gifFrameToImage_h_sim:
  assumes ho: "holds h gr g"
  shows "rel_option (\<lambda>(a, h') img. a = length h \<and> (\<exists>junk. h' = h @ RGBAObj img # junk))
           (gifFrameToImage_h gr k h) (gifFrameToImage g k)"
proof -
  note fi = holds_index [OF ho, of k]
  show ?thesis
    unfolding gifFrameToImage_h_def gifFrameToImage_def
  proof (rule rel_option_bindI [OF fi])
    fix fr f assume "fr < length h \<and> h ! fr = PalettedObj f"
    then have fr: "fr < length h" "h ! fr = PalettedObj f" by simp_all
    then have df: "deref_Paletted h fr = Some f" by (simp add: deref_Paletted_def)
    let ?b = "PalRect f"
    let ?goal = "\<lambda>m m'. rel_option
        (\<lambda>(a, h') img. a = length h \<and> (\<exists>junk. h' = h @ RGBAObj img # junk)) m m'"
    have "?goal
        (NewRGBA_h ?b h \<bind> (\<lambda>(img, h1).
           if k = 0 then drawFrame_h img fr ?b h1 \<bind> (\<lambda>h2. Some (img, h2))
           else loop_h gr ?b k 0 img h1 \<bind> (\<lambda>h2. Some (img, h2))))
        (NewRGBA ?b \<bind> (\<lambda>img. if k = 0 then drawFrame img f ?b else loop g ?b k 0 img))"
    proof (cases "NewRGBA ?b")
      case None
      then show ?thesis by (simp add: NewRGBA_h_def)
    next
      case (Some img0)
      let ?a = "length h"
      let ?h1 = "h @ [RGBAObj img0]"
      have n: "NewRGBA_h ?b h = Some (?a, ?h1)" by (simp add: NewRGBA_h_def Some)
      have a: "?a < length ?h1" "?h1 ! ?a = RGBAObj img0" by simp_all
      have upd: "(?h1 @ junk)[?a := RGBAObj x] = h @ RGBAObj x # junk" for junk x
        by (simp add: list_update_append)
      show ?thesis
      proof (cases "k = 0")
        case True
        have e: "drawFrame_h ?a fr ?b ?h1
            = map_option (\<lambda>d'. ?h1[?a := RGBAObj d']) (drawFrame img0 f ?b)"
          using fr by (intro drawFrame_h_eq) (simp_all add: nth_append)
        show ?thesis
          using True by (cases "drawFrame img0 f ?b") (simp_all add: n Some e)
      next
        case False
        have t: "take (length h) ?h1 = h" by simp
        have l: "rel_option (\<lambda>h' img'. \<exists>junk. h' = (?h1 @ junk)[?a := RGBAObj img'])
            (loop_h gr ?b k 0 ?a ?h1) (loop g ?b k 0 img0)"
          by (rule loop_h_sim [OF _ ho t a]) simp
        show ?thesis
        proof (cases "loop g ?b k 0 img0")
          case None
          then have "loop_h gr ?b k 0 ?a ?h1 = None"
            using l by (cases "loop_h gr ?b k 0 ?a ?h1") auto
          with None False show ?thesis by (simp add: n Some)
        next
          case img: (Some img)
          then obtain junk where "loop_h gr ?b k 0 ?a ?h1 = Some ((?h1 @ junk)[?a := RGBAObj img])"
            using l by (cases "loop_h gr ?b k 0 ?a ?h1") auto
          then have "loop_h gr ?b k 0 ?a ?h1 = Some (h @ RGBAObj img # junk)"
            by (simp only: upd)
          with img False show ?thesis by (simp add: n Some)
        qed
      qed
    qed
    then show "?goal
        (deref_Paletted h fr \<bind> (\<lambda>f. let bounds = PalRect f in
           NewRGBA_h bounds h \<bind> (\<lambda>(img, h1).
             if k = 0 then drawFrame_h img fr bounds h1 \<bind> (\<lambda>h2. Some (img, h2))
             else loop_h gr bounds k 0 img h1 \<bind> (\<lambda>h2. Some (img, h2)))))
        (let bounds = PalRect f in
           NewRGBA bounds \<bind> (\<lambda>img. if k = 0 then drawFrame img f bounds else loop g bounds k 0 img))"
      by (simp add: df Let_def)
  qed
qed

text \<open>
  Claim C9. On a heap that holds the animation, a call that returns hands back a canvas at a
  fresh address, holding the raster the functional compositor computes from the frames and
  the index alone, and changes no object that was on the heap before the call: the frames
  are read only. A second call on the resulting heap returns another fresh canvas with the
  identical raster and leaves the first one as it was.
\<close>

theorem composite_is_fresh_and_repeatable:
  "holds h gr g \<Longrightarrow> gifFrameToImage_h gr k h = Some (a1, h1) \<Longrightarrow>
   a1 = length h \<and> take (length h) h1 = h \<and> holds h1 gr g \<and>
   (\<exists>img. gifFrameToImage g k = Some img \<and> h1 ! a1 = RGBAObj img) \<and>
   (\<exists>a2 h2. gifFrameToImage_h gr k h1 = Some (a2, h2) \<and> a2 \<noteq> a1 \<and>
      take (length h1) h2 = h1 \<and> h2 ! a2 = h2 ! a1)"
proof -
  assume ho: "holds h gr g" and c1: "gifFrameToImage_h gr k h = Some (a1, h1)"
  from gifFrameToImage_h_sim [OF ho, of k] c1
  obtain img junk where img: "gifFrameToImage g k = Some img"
    and a1: "a1 = length h" and h1: "h1 = h @ RGBAObj img # junk"
    by (cases "gifFrameToImage g k") auto
  have ho1: "holds h1 gr g" unfolding h1 by (rule holds_extension [OF ho])
  from gifFrameToImage_h_sim [OF ho1, of k] img
  obtain a2 h2 junk2 where c2: "gifFrameToImage_h gr k h1 = Some (a2, h2)"
    and a2: "a2 = length h1" and h2: "h2 = h1 @ RGBAObj img # junk2"
    by (cases "gifFrameToImage_h gr k h1") auto
  have "a2 \<noteq> a1" using a1 a2 h1 by simp
  moreover have "take (length h1) h2 = h1" using h2 by simp
  moreover have "h2 ! a2 = h2 ! a1" using a1 a2 h1 h2 by (simp add: nth_append)
  moreover have "take (length h) h1 = h" "h1 ! a1 = RGBAObj img" using a1 h1 by simp_all
  ultimately show ?thesis using a1 ho1 img c2 by blast
qed

theorem composite_is_fresh_and_repeatable_witness:
  "gifFrameToImage_h \<lparr>Image = [0, 1], Disposal = [disposalNone, disposalPrevious]\<rparr> 1
     [PalettedObj (px_frame 0), PalettedObj (px_frame 1)]
   = Some (2, [PalettedObj (px_frame 0), PalettedObj (px_frame 1),
               RGBAObj (px_canvas red), RGBAObj (px_canvas red)]) \<and>
   gifFrameToImage \<lparr>Image = [px_frame 0, px_frame 1], Disposal = [disposalNone, disposalPrevious]\<rparr> 1
   = Some (px_canvas red) \<and>
   holds [PalettedObj (px_frame 0), PalettedObj (px_frame 1),
          RGBAObj (px_canvas red), RGBAObj (px_canvas red)]
     \<lparr>Image = [0, 1], Disposal = [disposalNone, disposalPrevious]\<rparr>
     \<lparr>Image = [px_frame 0, px_frame 1], Disposal = [disposalNone, disposalPrevious]\<rparr>"
proof -
  let ?h = "[PalettedObj (px_frame 0), PalettedObj (px_frame 1)]"
  let ?h1 = "[PalettedObj (px_frame 0), PalettedObj (px_frame 1),
              RGBAObj (px_canvas red), RGBAObj (px_canvas red)]"
  let ?gr = "\<lparr>Image = [0, 1], Disposal = [disposalNone, disposalPrevious]\<rparr> :: addr GIF"
  let ?g = "\<lparr>Image = [px_frame 0, px_frame 1], Disposal = [disposalNone, disposalPrevious]\<rparr>"
  have ho: "holds ?h ?gr ?g" by (simp add: holds_def)
  have c1: "gifFrameToImage_h ?gr 1 ?h = Some (2, ?h1)"
    by (simp add: gifFrameToImage_h_def index_def deref_Paletted_def deref_RGBA_def resolve_def
        NewRGBA_h_def loop_h.simps loop_body_h_def disposal_at_def drawFrame_h_def Draw_h_def
        px_eval [unfolded drawFrame_def] px_frame_sel disposal_consts_distinct)
  note t = composite_is_fresh_and_repeatable [OF ho c1]
  from t obtain img where "gifFrameToImage ?g 1 = Some img" "?h1 ! 2 = RGBAObj img" by blast
  then have "gifFrameToImage ?g 1 = Some (px_canvas red)" by simp
  moreover have "holds ?h1 ?gr ?g" using t by blast
  ultimately show ?thesis using c1 by blast
qed

end

